theory Spec2Isabelle
  imports Main "HOL-Library.Sublist"
begin

section \<open>Strings of the source language\<close>

text \<open>
  A Python \<open>str\<close> is a sequence of Unicode code points; a code point is modelled as a
  natural number, so that \<open>len\<close> counts what Python counts and the line separators
  beyond Latin-1 (U+2028, U+2029) exist in the model. String literals of the source are
  written \<open>lit ''...''\<close>.
\<close>

type_synonym pystr = "nat list"

definition lit :: "string \<Rightarrow> pystr" where
  "lit s = map of_char s"

text \<open>
  Python's Unicode database outside ASCII is not part of the repository: the two
  predicates of it that the regular expressions consult (\<open>str.isalnum\<close> behind
  \<open>\w\<close>, the decimal-digit property behind \<open>\d\<close>) are a parameter. Inside ASCII
  the classes are written out.
\<close>

record pyunicode =
  uni_alnum :: "nat \<Rightarrow> bool"
  uni_decimal :: "nat \<Rightarrow> bool"

text \<open>The boundaries of \<open>str.splitlines\<close>.\<close>

definition is_linebreak :: "nat \<Rightarrow> bool" where
  "is_linebreak c \<longleftrightarrow>
     c = 10 \<or> c = 11 \<or> c = 12 \<or> c = 13 \<or> c = 28 \<or> c = 29 \<or> c = 30 \<or> c = 133 \<or>
     c = 8232 \<or> c = 8233"

text \<open>Whitespace of \<open>str.strip\<close> and of \<open>\s\<close> in a \<open>str\<close> pattern.\<close>

definition is_space :: "nat \<Rightarrow> bool" where
  "is_space c \<longleftrightarrow>
     (9 \<le> c \<and> c \<le> 13) \<or> (28 \<le> c \<and> c \<le> 32) \<or> c = 133 \<or> c = 160 \<or> c = 5760 \<or>
     (8192 \<le> c \<and> c \<le> 8202) \<or> c = 8232 \<or> c = 8233 \<or> c = 8239 \<or> c = 8287 \<or> c = 12288"

text \<open>\<open>\w\<close>: alphanumeric or underscore.\<close>

definition is_word :: "pyunicode \<Rightarrow> nat \<Rightarrow> bool" where
  "is_word U c \<longleftrightarrow>
     (if c < 128
      then (48 \<le> c \<and> c \<le> 57) \<or> (65 \<le> c \<and> c \<le> 90) \<or> (97 \<le> c \<and> c \<le> 122) \<or> c = 95
      else uni_alnum U c)"

text \<open>
  \<open>\d\<close>: a decimal digit. No decimal digit of Unicode is whitespace; the conjunct keeps
  that fact for every value of the parameter, so that the greedy reading of
  \<open>^(\s*)(\d+)\<close> below is the only one.
\<close>

definition is_digit :: "pyunicode \<Rightarrow> nat \<Rightarrow> bool" where
  "is_digit U c \<longleftrightarrow>
     (if c < 128 then 48 \<le> c \<and> c \<le> 57 else uni_decimal U c \<and> \<not> is_space c)"

definition lstrip :: "pystr \<Rightarrow> pystr" where
  "lstrip s = dropWhile is_space s"

definition rstrip :: "pystr \<Rightarrow> pystr" where
  "rstrip s = rev (dropWhile is_space (rev s))"

definition strip :: "pystr \<Rightarrow> pystr" where
  "strip s = rstrip (lstrip s)"

text \<open>\<open>sub in s\<close> is \<open>sublist sub s\<close>, \<open>s.startswith(p)\<close> is \<open>prefix p s\<close>,
  \<open>s.endswith(p)\<close> is \<open>suffix p s\<close>.\<close>

text \<open>\<open>str.splitlines()\<close>: \<open>cur\<close> is the line read so far. A carriage return
  followed by a line feed is one boundary; a last line without boundary is kept when it
  is not empty.\<close>

fun splitlines_from :: "pystr \<Rightarrow> pystr \<Rightarrow> pystr list" where
  "splitlines_from cur [] = (if cur = [] then [] else [cur])"
| "splitlines_from cur [c] = (if is_linebreak c then [cur] else [cur @ [c]])"
| "splitlines_from cur (c # d # cs) =
     (if c = 13 \<and> d = 10 then cur # splitlines_from [] cs
      else if is_linebreak c then cur # splitlines_from [] (d # cs)
      else splitlines_from (cur @ [c]) (d # cs))"

definition splitlines :: "pystr \<Rightarrow> pystr list" where
  "splitlines s = splitlines_from [] s"

text \<open>\<open>sep.join(xs)\<close>.\<close>

fun join :: "pystr \<Rightarrow> pystr list \<Rightarrow> pystr" where
  "join sep [] = []"
| "join sep [x] = x"
| "join sep (x # y # ys) = x @ sep @ join sep (y # ys)"

text \<open>\<open>s.split(d)\<close> for a separator of one character.\<close>

fun split_on :: "nat \<Rightarrow> pystr \<Rightarrow> pystr list" where
  "split_on d [] = [[]]"
| "split_on d (c # cs) =
     (if c = d then [] # split_on d cs
      else (c # hd (split_on d cs)) # tl (split_on d cs))"

text \<open>\<open>text.replace(old, new)\<close>: the occurrences of \<open>old\<close> from the left, without
  overlap. For an empty \<open>old\<close> Python puts \<open>new\<close> around every character.\<close>

function replace_from :: "pystr \<Rightarrow> pystr \<Rightarrow> pystr \<Rightarrow> pystr" where
  "replace_from old new [] = []"
| "replace_from old new (c # cs) =
     (if prefix old (c # cs) then new @ replace_from old new (drop (length old - 1) cs)
      else c # replace_from old new cs)"
  by pat_completeness auto
termination
  by (relation "measure (\<lambda>(old, new, t). length t)") auto

definition replace :: "pystr \<Rightarrow> pystr \<Rightarrow> pystr \<Rightarrow> pystr" where
  "replace old new t =
     (if old = [] then new @ concat (map (\<lambda>c. c # new) t) else replace_from old new t)"

text \<open>\<open>str(n)\<close> for a counter.\<close>

function str_nat :: "nat \<Rightarrow> pystr" where
  "str_nat n = (if n < 10 then [48 + n] else str_nat (n div 10) @ [48 + n mod 10])"
  by pat_completeness auto
termination
  by (relation "measure id") auto

section \<open>Placeholders and dictionaries\<close>

text \<open>A \<open>dict\<close> keeps its keys in insertion order: an association list. Assigning to a
  key that is present changes its value in place.\<close>

type_synonym pydict = "(pystr \<times> pystr) list"

fun dict_set :: "pydict \<Rightarrow> pystr \<Rightarrow> pystr \<Rightarrow> pydict" where
  "dict_set [] k v = [(k, v)]"
| "dict_set ((k', v') # m) k v = (if k' = k then (k, v) # m else (k', v') # dict_set m k v)"

definition PH_CB :: pystr where "PH_CB = 0 # lit ''CB''"
definition PH_IC :: pystr where "PH_IC = 0 # lit ''IC''"
definition PH_LK :: pystr where "PH_LK = 0 # lit ''LK''"
definition PH_BD :: pystr where "PH_BD = 0 # lit ''BD''"
definition PH_END :: pystr where "PH_END = [0]"

definition ph :: "pystr \<Rightarrow> nat \<Rightarrow> pystr" where
  "ph tag n = tag @ [1] @ str_nat n @ PH_END"

text \<open>\<open>_restore_placeholders\<close>: one \<open>replace\<close> for each item, in the order of the
  dictionary.\<close>

definition restore_placeholders :: "pystr \<Rightarrow> pydict \<Rightarrow> pystr" where
  "restore_placeholders text placeholder_map =
     fold (\<lambda>(key, val) t. replace key val t) placeholder_map text"

section \<open>The patterns matched at the start of a line\<close>

text \<open>
  Each pattern of the class is a function that returns the groups of the match, or
  \<open>None\<close>. \<open>$\<close> holds at the end of the string and before a line feed that ends it;
  \<open>.\<close> is any character but the line feed.
\<close>

definition at_dollar :: "pystr \<Rightarrow> bool" where
  "at_dollar s \<longleftrightarrow> s = [] \<or> s = [10]"

text \<open>\<open>_FENCE_START = ^(`{3,}|~{3,})([\w+-]*)$\<close>: groups 1 and 2.\<close>

definition FENCE_START_match :: "pyunicode \<Rightarrow> pystr \<Rightarrow> (pystr \<times> pystr) option" where
  "FENCE_START_match U line =
     (case line of
        [] \<Rightarrow> None
      | c # _ \<Rightarrow>
          if c = 96 \<or> c = 126 then
            (let g1 = takeWhile (\<lambda>x. x = c) line;
                 rest = dropWhile (\<lambda>x. x = c) line;
                 g2 = takeWhile (\<lambda>x. is_word U x \<or> x = 43 \<or> x = 45) rest
             in if 3 \<le> length g1 \<and> at_dollar (dropWhile (\<lambda>x. is_word U x \<or> x = 43 \<or> x = 45) rest)
                then Some (g1, g2) else None)
          else None)"

text \<open>The closing fence, \<open>'^' + re.escape(fence_char) + '{3,}\s*$'\<close>.\<close>

definition fence_close_match :: "nat \<Rightarrow> pystr \<Rightarrow> bool" where
  "fence_close_match fence_char line \<longleftrightarrow>
     3 \<le> length (takeWhile (\<lambda>x. x = fence_char) line) \<and>
     list_all is_space (dropWhile (\<lambda>x. x = fence_char) line)"

text \<open>\<open>_HEADING = ^(#{1,6})\s+(.*)\<close>.\<close>

definition HEADING_match :: "pystr \<Rightarrow> (pystr \<times> pystr) option" where
  "HEADING_match line =
     (let g1 = takeWhile (\<lambda>x. x = 35) line; rest = dropWhile (\<lambda>x. x = 35) line
      in if 1 \<le> length g1 \<and> length g1 \<le> 6 \<and> rest \<noteq> [] \<and> is_space (hd rest)
         then Some (g1, takeWhile (\<lambda>x. x \<noteq> 10) (dropWhile is_space rest)) else None)"

text \<open>\<open>_HR = ^(\*{3,}|-{3,}|_{3,})\s*$\<close>.\<close>

definition HR_match :: "pystr \<Rightarrow> bool" where
  "HR_match line \<longleftrightarrow>
     (case line of
        [] \<Rightarrow> False
      | c # _ \<Rightarrow> (c = 42 \<or> c = 45 \<or> c = 95) \<and> 3 \<le> length (takeWhile (\<lambda>x. x = c) line) \<and>
          list_all is_space (dropWhile (\<lambda>x. x = c) line))"

text \<open>\<open>_BLOCKQUOTE = ^>\s?(.*)\<close>: group 1.\<close>

definition BLOCKQUOTE_match :: "pystr \<Rightarrow> pystr option" where
  "BLOCKQUOTE_match line =
     (case line of
        [] \<Rightarrow> None
      | c # cs \<Rightarrow>
          if c = 62 then
            Some (takeWhile (\<lambda>x. x \<noteq> 10) (if cs \<noteq> [] \<and> is_space (hd cs) then tl cs else cs))
          else None)"

text \<open>\<open>_UL_ITEM = ^(\s*)([-*+])\s+(.*)\<close>: groups 1 and 3.\<close>

definition UL_ITEM_match :: "pystr \<Rightarrow> (pystr \<times> pystr) option" where
  "UL_ITEM_match line =
     (let g1 = takeWhile is_space line; rest = dropWhile is_space line
      in case rest of
           [] \<Rightarrow> None
         | m # after \<Rightarrow>
             if (m = 45 \<or> m = 42 \<or> m = 43) \<and> after \<noteq> [] \<and> is_space (hd after)
             then Some (g1, takeWhile (\<lambda>x. x \<noteq> 10) (dropWhile is_space after)) else None)"

text \<open>\<open>_OL_ITEM = ^(\s*)(\d+)\.\s+(.*)\<close>: groups 1 and 3.\<close>

definition OL_ITEM_match :: "pyunicode \<Rightarrow> pystr \<Rightarrow> (pystr \<times> pystr) option" where
  "OL_ITEM_match U line =
     (let g1 = takeWhile is_space line; rest = dropWhile is_space line;
          g2 = takeWhile (is_digit U) rest
      in case dropWhile (is_digit U) rest of
           [] \<Rightarrow> None
         | dot # after \<Rightarrow>
             if g2 \<noteq> [] \<and> dot = 46 \<and> after \<noteq> [] \<and> is_space (hd after)
             then Some (g1, takeWhile (\<lambda>x. x \<noteq> 10) (dropWhile is_space after)) else None)"

text \<open>\<open>_TASK_CHECKED = ^\[x\]\s+\<close>, ignoring case, and
  \<open>_TASK_UNCHECKED = ^\[ \]\s+\<close>: what follows the match, which is what
  \<open>sub('', content)\<close> returns.\<close>

definition TASK_CHECKED_match :: "pystr \<Rightarrow> pystr option" where
  "TASK_CHECKED_match content =
     (case content of
        a # b # c # d # rest \<Rightarrow>
          if a = 91 \<and> (b = 120 \<or> b = 88) \<and> c = 93 \<and> is_space d
          then Some (dropWhile is_space rest) else None
      | _ \<Rightarrow> None)"

definition TASK_UNCHECKED_match :: "pystr \<Rightarrow> pystr option" where
  "TASK_UNCHECKED_match content =
     (case content of
        a # b # c # d # rest \<Rightarrow>
          if a = 91 \<and> b = 32 \<and> c = 93 \<and> is_space d
          then Some (dropWhile is_space rest) else None
      | _ \<Rightarrow> None)"

text \<open>\<open>_TABLE_ROW = ^\|(.+)\|$\<close> and \<open>_TABLE_SEP = ^\|[-| :]+\|$\<close>: a pipe, at
  least one character of the class, a pipe, the end.\<close>

definition piped :: "(nat \<Rightarrow> bool) \<Rightarrow> pystr \<Rightarrow> bool" where
  "piped cls s \<longleftrightarrow>
     3 \<le> length s \<and> hd s = 124 \<and> last s = 124 \<and> list_all cls (butlast (tl s))"

definition TABLE_ROW_match :: "pystr \<Rightarrow> bool" where
  "TABLE_ROW_match line \<longleftrightarrow>
     piped (\<lambda>x. x \<noteq> 10) line \<or> (suffix [10] line \<and> piped (\<lambda>x. x \<noteq> 10) (butlast line))"

definition TABLE_SEP_match :: "pystr \<Rightarrow> bool" where
  "TABLE_SEP_match line \<longleftrightarrow>
     piped (\<lambda>x. x = 45 \<or> x = 124 \<or> x = 32 \<or> x = 58) line \<or>
     (suffix [10] line \<and> piped (\<lambda>x. x = 45 \<or> x = 124 \<or> x = 32 \<or> x = 58) (butlast line))"

section \<open>Pass 1: fenced code blocks\<close>

datatype py_error = IndexError

text \<open>The inner loop: the lines up to the closing fence, and the lines after it.\<close>

fun collect_body :: "nat \<Rightarrow> pystr list \<Rightarrow> pystr list \<times> pystr list" where
  "collect_body fence_char [] = ([], [])"
| "collect_body fence_char (l # ls) =
     (if fence_close_match fence_char l then ([], ls)
      else (case collect_body fence_char ls of (body_lines, rest) \<Rightarrow> (l # body_lines, rest)))"

lemma collect_body_length: "length (snd (collect_body fc ls)) \<le> length ls"
  by (induction ls) (auto split: prod.splits)

text \<open>The outer loop, with \<open>result\<close>, \<open>code_map\<close> and \<open>counter\<close> as the source has
  them. \<open>m.group(1)[0]\<close> raises on an empty group.\<close>

function extract_loop ::
  "pyunicode \<Rightarrow> pystr list \<Rightarrow> pystr list \<Rightarrow> pydict \<Rightarrow> nat \<Rightarrow> py_error + (pystr list \<times> pydict)" where
  "extract_loop U [] result code_map counter = Inr (result, code_map)"
| "extract_loop U (l # ls) result code_map counter =
     (case FENCE_START_match U l of
        Some (g1, g2) \<Rightarrow>
          (case g1 of
             [] \<Rightarrow> Inl IndexError
           | fence_char # _ \<Rightarrow>
               (let lang = strip g2;
                    body_lines = fst (collect_body fence_char ls);
                    header = (if lang \<noteq> [] then lit ''{code:language='' @ lang @ lit ''}''
                              else lit ''{code}'');
                    body = join [10] body_lines;
                    confluence_block = header @ [10] @ body @ lit ''\<newline>{code}'';
                    key = ph PH_CB counter
                in extract_loop U (snd (collect_body fence_char ls)) (result @ [key])
                     (dict_set code_map key confluence_block) (counter + 1)))
      | None \<Rightarrow> extract_loop U ls (result @ [l]) code_map counter)"
  by pat_completeness auto
termination
  by (relation "measure (\<lambda>(U, ls, result, code_map, counter). length ls)")
     (auto simp: collect_body_length less_Suc_eq_le)

definition extract_code_blocks ::
  "pyunicode \<Rightarrow> pystr list \<Rightarrow> py_error + (pystr list \<times> pydict)" where
  "extract_code_blocks U lines = extract_loop U lines [] [] 0"

section \<open>Pass 2: block structure\<close>

text \<open>\<open>_format_table_row\<close>.\<close>

definition format_table_row :: "pystr \<Rightarrow> bool \<Rightarrow> pystr" where
  "format_table_row row header =
     (let inner = strip row;
          inner = (if prefix [124] inner then tl inner else inner);
          inner = (if suffix [124] inner then butlast inner else inner);
          cells = map strip (split_on 124 inner);
          sep = (if header then lit ''||'' else lit ''|'')
      in sep @ join sep cells @ sep)"

text \<open>\<open>_process_table\<close>.\<close>

definition process_table :: "pystr list \<Rightarrow> pystr list" where
  "process_table rows =
     (let sep_indices = filter (\<lambda>i. TABLE_SEP_match (rows ! i)) [0..<length rows]
      in case sep_indices of
           [] \<Rightarrow> map (\<lambda>row. format_table_row row False) rows
         | sep_idx # _ \<Rightarrow>
             map (\<lambda>row. format_table_row row True) (take sep_idx rows) @
             map (\<lambda>row. format_table_row row False)
               (filter (\<lambda>row. \<not> TABLE_SEP_match row) (drop (sep_idx + 1) rows)))"

datatype list_type = ul | ol

text \<open>\<open>_list_prefix\<close>.\<close>

definition list_prefix :: "list_type list \<Rightarrow> pystr" where
  "list_prefix stack = concat (map (\<lambda>t. if t = ul then lit ''*'' else lit ''#'') stack)"

text \<open>\<open>while len(list_stack) > depth: list_stack.pop()\<close>; \<open>pop\<close> raises on an empty
  list.\<close>

function pop_while :: "nat \<Rightarrow> list_type list \<Rightarrow> py_error + list_type list" where
  "pop_while depth list_stack =
     (if length list_stack > depth
      then (if list_stack = [] then Inl IndexError else pop_while depth (butlast list_stack))
      else Inr list_stack)"
  by pat_completeness auto
termination
  by (relation "measure (\<lambda>(depth, list_stack). length list_stack)") auto

text \<open>\<open>while len(list_stack) < depth: list_stack.append(t)\<close>.\<close>

function append_while :: "list_type \<Rightarrow> nat \<Rightarrow> list_type list \<Rightarrow> list_type list" where
  "append_while t depth list_stack =
     (if length list_stack < depth then append_while t depth (list_stack @ [t]) else list_stack)"
  by pat_completeness auto
termination
  by (relation "measure (\<lambda>(t, depth, list_stack). depth - length list_stack)") auto

text \<open>\<open>xs[i] = v\<close> for an integer index: a negative index counts from the end, an index
  out of range raises.\<close>

definition setitem :: "'a list \<Rightarrow> int \<Rightarrow> 'a \<Rightarrow> py_error + 'a list" where
  "setitem xs i v =
     (let n = int (length xs); j = (if i < 0 then n + i else i)
      in if 0 \<le> j \<and> j < n then Inr (xs[nat j := v]) else Inl IndexError)"

text \<open>The stack of a list item at \<open>depth\<close>: the two loops and the assignment.\<close>

definition update_stack :: "list_type \<Rightarrow> nat \<Rightarrow> list_type list \<Rightarrow> py_error + list_type list" where
  "update_stack t depth list_stack =
     (case pop_while depth list_stack of
        Inl e \<Rightarrow> Inl e
      | Inr s1 \<Rightarrow> setitem (append_while t depth s1) (int depth - 1) t)"

text \<open>The loop that flattens nested blockquotes:
  \<open>while self._BLOCKQUOTE.match(content): content = self._BLOCKQUOTE.match(content).group(1)\<close>.\<close>

lemma BLOCKQUOTE_match_length: "BLOCKQUOTE_match s = Some c \<Longrightarrow> length c < length s"
proof -
  assume h: "BLOCKQUOTE_match s = Some c"
  then obtain cs where s: "s = 62 # cs"
    and c: "c = takeWhile (\<lambda>x. x \<noteq> 10) (if cs \<noteq> [] \<and> is_space (hd cs) then tl cs else cs)"
    by (auto simp: BLOCKQUOTE_match_def split: list.splits if_splits)
  have "length c \<le> length (if cs \<noteq> [] \<and> is_space (hd cs) then tl cs else cs)"
    unfolding c by (rule length_takeWhile_le)
  also have "\<dots> \<le> length cs" by simp
  finally show ?thesis by (simp add: s)
qed

function flatten_quote :: "pystr \<Rightarrow> pystr" where
  "flatten_quote content =
     (case BLOCKQUOTE_match content of
        Some content' \<Rightarrow> flatten_quote content'
      | None \<Rightarrow> content)"
  by pat_completeness auto
termination
  by (relation "measure length") (auto simp: BLOCKQUOTE_match_length)

text \<open>\<open>flush_table\<close>.\<close>

definition flush_table :: "pystr list \<Rightarrow> pystr list \<Rightarrow> pystr list" where
  "flush_table table_buffer result =
     (if table_buffer \<noteq> [] then result @ process_table table_buffer else result)"

text \<open>The body of the loop of \<open>_process_block_structure\<close> for one line, on the state
  \<open>(list_stack, table_buffer, result)\<close>.\<close>

definition block_line ::
  "pyunicode \<Rightarrow> pystr \<Rightarrow> list_type list \<times> pystr list \<times> pystr list \<Rightarrow>
   py_error + (list_type list \<times> pystr list \<times> pystr list)" where
  "block_line U line st =
     (case st of (list_stack, table_buffer, result) \<Rightarrow>
        if sublist PH_CB line then Inr ([], [], flush_table table_buffer result @ [line])
        else if TABLE_ROW_match line then Inr (list_stack, table_buffer @ [line], result)
        else
          (let result = flush_table table_buffer result in
           case HEADING_match line of
             Some (g1, g2) \<Rightarrow>
               Inr ([], [], result @ [lit ''h'' @ str_nat (length g1) @ lit ''. '' @ rstrip g2])
           | None \<Rightarrow>
               if HR_match line \<and> UL_ITEM_match line = None \<and> OL_ITEM_match U line = None
               then Inr ([], [], result @ [lit ''----''])
               else
                 (case BLOCKQUOTE_match line of
                    Some content \<Rightarrow> Inr ([], [], result @ [lit ''bq. '' @ flatten_quote content])
                  | None \<Rightarrow>
                      (case UL_ITEM_match line of
                         Some (g1, content) \<Rightarrow>
                           (let depth = length g1 div 2 + 1 in
                            case update_stack ul depth list_stack of
                              Inl e \<Rightarrow> Inl e
                            | Inr list_stack \<Rightarrow>
                                (let prefix = list_prefix (take depth list_stack) in
                                 case TASK_CHECKED_match content of
                                   Some content \<Rightarrow>
                                     Inr (list_stack, [], result @ [prefix @ lit '' (/) '' @ content])
                                 | None \<Rightarrow>
                                     (case TASK_UNCHECKED_match content of
                                        Some content \<Rightarrow>
                                          Inr (list_stack, [],
                                               result @ [prefix @ lit '' ( ) '' @ content])
                                      | None \<Rightarrow>
                                          Inr (list_stack, [], result @ [prefix @ lit '' '' @ content]))))
                       | None \<Rightarrow>
                           (case OL_ITEM_match U line of
                              Some (g1, content) \<Rightarrow>
                                (let depth = length g1 div 2 + 1 in
                                 case update_stack ol depth list_stack of
                                   Inl e \<Rightarrow> Inl e
                                 | Inr list_stack \<Rightarrow>
                                     Inr (list_stack, [],
                                          result @ [list_prefix (take depth list_stack) @ lit '' '' @ content]))
                            | None \<Rightarrow> Inr ([], [], result @ [line]))))))"

fun block_loop ::
  "pyunicode \<Rightarrow> pystr list \<Rightarrow> list_type list \<times> pystr list \<times> pystr list \<Rightarrow>
   py_error + (list_type list \<times> pystr list \<times> pystr list)" where
  "block_loop U [] st = Inr st"
| "block_loop U (line # lines) st =
     (case block_line U line st of Inl e \<Rightarrow> Inl e | Inr st' \<Rightarrow> block_loop U lines st')"

definition process_block_structure :: "pyunicode \<Rightarrow> pystr list \<Rightarrow> py_error + pystr list" where
  "process_block_structure U lines =
     (case block_loop U lines ([], [], []) of
        Inl e \<Rightarrow> Inl e
      | Inr (list_stack, table_buffer, result) \<Rightarrow> Inr (flush_table table_buffer result))"

section \<open>Substitution of a pattern in a line\<close>

text \<open>
  \<open>pattern.sub(repl, line)\<close> with a function \<open>repl\<close>: the matches from the left,
  without overlap. \<open>match_at prev s\<close> is the match of the pattern at the front of
  \<open>s\<close>, when \<open>prev\<close> is the character before it (for the lookbehinds): it returns the
  groups and the rest of \<open>s\<close> after the match. \<open>repl\<close> returns the replacement, and
  changes the state that the source keeps in \<open>nonlocal\<close> variables and dictionaries.
  No pattern of the class matches the empty string; a match that consumes nothing is
  taken as no match.
\<close>

function re_sub ::
  "(nat option \<Rightarrow> pystr \<Rightarrow> ('g \<times> pystr) option) \<Rightarrow> ('g \<Rightarrow> 's \<Rightarrow> pystr \<times> 's) \<Rightarrow>
   nat option \<Rightarrow> pystr \<Rightarrow> 's \<Rightarrow> pystr \<times> 's" where
  "re_sub match_at repl prev [] st = ([], st)"
| "re_sub match_at repl prev (c # cs) st =
     (case match_at prev (c # cs) of
        None \<Rightarrow> (case re_sub match_at repl (Some c) cs st of (out, st') \<Rightarrow> (c # out, st'))
      | Some (g, rest) \<Rightarrow>
          if length rest \<le> length cs then
            (case repl g st of
               (new, st1) \<Rightarrow>
                 (case re_sub match_at repl (Some ((c # cs) ! (length cs - length rest))) rest st1 of
                    (out, st') \<Rightarrow> (new @ out, st')))
          else (case re_sub match_at repl (Some c) cs st of (out, st') \<Rightarrow> (c # out, st')))"
  by pat_completeness auto
termination
  by (relation "measure (\<lambda>(match_at, repl, prev, s, st). length s)") auto

text \<open>\<open>_INLINE_CODE = `([^`]+)`\<close>.\<close>

definition INLINE_CODE_match_at :: "nat option \<Rightarrow> pystr \<Rightarrow> (pystr \<times> pystr) option" where
  "INLINE_CODE_match_at prev s =
     (case s of
        [] \<Rightarrow> None
      | c # cs \<Rightarrow>
          if c = 96 \<and> takeWhile (\<lambda>x. x \<noteq> 96) cs \<noteq> [] \<and> dropWhile (\<lambda>x. x \<noteq> 96) cs \<noteq> []
          then Some (takeWhile (\<lambda>x. x \<noteq> 96) cs, tl (dropWhile (\<lambda>x. x \<noteq> 96) cs))
          else None)"

text \<open>\<open>_LINK = \[([^\]]*)\]\(([^)]+)\)\<close>: groups 1 and 2.\<close>

definition LINK_match_at :: "nat option \<Rightarrow> pystr \<Rightarrow> ((pystr \<times> pystr) \<times> pystr) option" where
  "LINK_match_at prev s =
     (case s of
        [] \<Rightarrow> None
      | c # cs \<Rightarrow>
          if c = 91 then
            (case dropWhile (\<lambda>x. x \<noteq> 93) cs of
               b # p # after \<Rightarrow>
                 if p = 40 \<and> takeWhile (\<lambda>x. x \<noteq> 41) after \<noteq> [] \<and>
                    dropWhile (\<lambda>x. x \<noteq> 41) after \<noteq> []
                 then Some ((takeWhile (\<lambda>x. x \<noteq> 93) cs, takeWhile (\<lambda>x. x \<noteq> 41) after),
                            tl (dropWhile (\<lambda>x. x \<noteq> 41) after))
                 else None
             | _ \<Rightarrow> None)
          else None)"

text \<open>\<open>_IMAGE = !\[([^\]]*)\]\(([^)]+)\)\<close>.\<close>

definition IMAGE_match_at :: "nat option \<Rightarrow> pystr \<Rightarrow> ((pystr \<times> pystr) \<times> pystr) option" where
  "IMAGE_match_at prev s =
     (case s of
        [] \<Rightarrow> None
      | c # cs \<Rightarrow> if c = 33 then LINK_match_at (Some c) cs else None)"

text \<open>\<open>(.+?)\<close> followed by the delimiter \<open>d\<close>: the shortest text of at least one
  character, none of them a line feed, that \<open>d\<close> follows; with the rest after \<open>d\<close>.\<close>

fun lazy_until :: "pystr \<Rightarrow> pystr \<Rightarrow> (pystr \<times> pystr) option" where
  "lazy_until d [] = None"
| "lazy_until d (c # cs) =
     (if c = 10 then None
      else if prefix d cs then Some ([c], drop (length d) cs)
      else (case lazy_until d cs of None \<Rightarrow> None | Some (t, rest) \<Rightarrow> Some (c # t, rest)))"

text \<open>\<open>_BOLD_ITALIC = (\*{3}|_{3})(.+?)\1\<close>, \<open>_BOLD = (\*{2}|_{2})(.+?)\1\<close>:
  groups 1 and 2.\<close>

definition delimited_match_at ::
  "nat \<Rightarrow> nat option \<Rightarrow> pystr \<Rightarrow> ((pystr \<times> pystr) \<times> pystr) option" where
  "delimited_match_at n prev s =
     (if prefix (replicate n 42) s then
        (case lazy_until (replicate n 42) (drop n s) of
           None \<Rightarrow> None | Some (t, rest) \<Rightarrow> Some ((replicate n 42, t), rest))
      else if prefix (replicate n 95) s then
        (case lazy_until (replicate n 95) (drop n s) of
           None \<Rightarrow> None | Some (t, rest) \<Rightarrow> Some ((replicate n 95, t), rest))
      else None)"

definition BOLD_ITALIC_match_at :: "nat option \<Rightarrow> pystr \<Rightarrow> ((pystr \<times> pystr) \<times> pystr) option" where
  "BOLD_ITALIC_match_at = delimited_match_at 3"

definition BOLD_match_at :: "nat option \<Rightarrow> pystr \<Rightarrow> ((pystr \<times> pystr) \<times> pystr) option" where
  "BOLD_match_at = delimited_match_at 2"

text \<open>\<open>_STRIKE = ~~(.+?)~~\<close>.\<close>

definition STRIKE_match_at :: "nat option \<Rightarrow> pystr \<Rightarrow> (pystr \<times> pystr) option" where
  "STRIKE_match_at prev s =
     (if prefix [126, 126] s then lazy_until [126, 126] (drop 2 s) else None)"

text \<open>\<open>(.+?)(?<!d)d(?!d)\<close>, the end of an italic span: the closing delimiter is a
  single \<open>d\<close>, neither after nor before another \<open>d\<close>.\<close>

fun italic_close :: "nat \<Rightarrow> pystr \<Rightarrow> (pystr \<times> pystr) option" where
  "italic_close d [] = None"
| "italic_close d [c] = None"
| "italic_close d (c # e # es) =
     (if c = 10 then None
      else if c \<noteq> d \<and> e = d \<and> \<not> prefix [d] es then Some ([c], es)
      else (case italic_close d (e # es) of None \<Rightarrow> None | Some (t, rest) \<Rightarrow> Some (c # t, rest)))"

text \<open>\<open>_ITALIC = (?<!\*)\*(?!\*)(.+?)(?<!\*)\*(?!\*)|(?<!_)_(?!_)(.+?)(?<!_)_(?!_)\<close>:
  groups 1 and 2, of which one is \<open>None\<close>.\<close>

definition ITALIC_match_at ::
  "nat option \<Rightarrow> pystr \<Rightarrow> ((pystr option \<times> pystr option) \<times> pystr) option" where
  "ITALIC_match_at prev s =
     (case s of
        [] \<Rightarrow> None
      | c # cs \<Rightarrow>
          if c = 42 \<and> prev \<noteq> Some 42 \<and> \<not> prefix [42] cs then
            (case italic_close 42 cs of
               None \<Rightarrow> None | Some (t, rest) \<Rightarrow> Some ((Some t, None), rest))
          else if c = 95 \<and> prev \<noteq> Some 95 \<and> \<not> prefix [95] cs then
            (case italic_close 95 cs of
               None \<Rightarrow> None | Some (t, rest) \<Rightarrow> Some ((None, Some t), rest))
          else None)"

section \<open>Passes 3 to 6: inline code, links, formatting, restoring\<close>

text \<open>\<open>replacer\<close> of \<open>_extract_inline_code\<close>, on the state \<open>(counter, inline_map)\<close>.\<close>

definition replacer :: "pystr \<Rightarrow> nat \<times> pydict \<Rightarrow> pystr \<times> (nat \<times> pydict)" where
  "replacer g1 st =
     (case st of (counter, inline_map) \<Rightarrow>
        (let key = ph PH_IC counter;
             content = (if 123 \<in> set g1 \<or> 125 \<in> set g1
                        then replace [125] (lit ''&#125;'') (replace [123] (lit ''&#123;'') g1)
                        else g1)
         in (key, (counter + 1, dict_set inline_map key (lit ''{{'' @ content @ lit ''}}'')))))"

definition extract_inline_code :: "pystr \<Rightarrow> pydict \<Rightarrow> pystr \<times> pydict" where
  "extract_inline_code line inline_map =
     (case re_sub INLINE_CODE_match_at replacer None line (length inline_map, inline_map) of
        (line', (counter, inline_map')) \<Rightarrow> (line', inline_map'))"

text \<open>\<open>img_replacer\<close> and \<open>link_replacer\<close> of \<open>_extract_links\<close>, on the state
  \<open>(counter, link_map)\<close>.\<close>

definition img_replacer :: "pystr \<times> pystr \<Rightarrow> nat \<times> pydict \<Rightarrow> pystr \<times> (nat \<times> pydict)" where
  "img_replacer g st =
     (case st of (counter, link_map) \<Rightarrow>
        (let key = ph PH_LK counter
         in (key, (counter + 1, dict_set link_map key (lit ''!'' @ snd g @ lit ''!'')))))"

definition link_replacer :: "pystr \<times> pystr \<Rightarrow> nat \<times> pydict \<Rightarrow> pystr \<times> (nat \<times> pydict)" where
  "link_replacer g st =
     (case st of (counter, link_map) \<Rightarrow>
        (let key = ph PH_LK counter
         in (key, (counter + 1,
                   dict_set link_map key (lit ''['' @ fst g @ lit ''|'' @ snd g @ lit '']'')))))"

definition extract_links :: "pystr \<Rightarrow> pydict \<Rightarrow> pystr \<times> pydict" where
  "extract_links line link_map =
     (case re_sub IMAGE_match_at img_replacer None line (length link_map, link_map) of
        (line1, st1) \<Rightarrow>
          (case re_sub LINK_match_at link_replacer None line1 st1 of
             (line2, (counter, link_map')) \<Rightarrow> (line2, link_map')))"

text \<open>\<open>store_bold\<close>, on the state \<open>(bd_counter, bold_map)\<close>.\<close>

definition store_bold :: "pystr \<Rightarrow> nat \<times> pydict \<Rightarrow> pystr \<times> (nat \<times> pydict)" where
  "store_bold wiki st =
     (case st of (bd_counter, bold_map) \<Rightarrow>
        (let key = ph PH_BD bd_counter
         in (key, (bd_counter + 1, dict_set bold_map key wiki))))"

definition italic_repl :: "pystr option \<times> pystr option \<Rightarrow> unit \<Rightarrow> pystr \<times> unit" where
  "italic_repl g u =
     (let content = (case fst g of Some t \<Rightarrow> t | None \<Rightarrow> (case snd g of Some t \<Rightarrow> t | None \<Rightarrow> []))
      in (lit ''_'' @ content @ lit ''_'', u))"

definition process_inline_formatting :: "pystr \<Rightarrow> pystr" where
  "process_inline_formatting line =
     (case re_sub BOLD_ITALIC_match_at (\<lambda>g. store_bold (lit ''*_'' @ snd g @ lit ''_*'')) None line
             (0, []) of
        (line1, st1) \<Rightarrow>
          (case re_sub BOLD_match_at (\<lambda>g. store_bold (lit ''*'' @ snd g @ lit ''*'')) None line1 st1 of
             (line2, (bd_counter, bold_map)) \<Rightarrow>
               (let line3 = fst (re_sub ITALIC_match_at italic_repl None line2 ());
                    line4 = fst (re_sub STRIKE_match_at (\<lambda>g u. (lit ''-'' @ g @ lit ''-'', u)) None
                                   line3 ())
                in restore_placeholders line4 bold_map)))"

section \<open>The converter\<close>

text \<open>The loop of \<open>convert\<close> over the lines, on the state
  \<open>(result_lines, inline_map, link_map)\<close>.\<close>

definition inline_line ::
  "pystr \<Rightarrow> pystr list \<times> pydict \<times> pydict \<Rightarrow> pystr list \<times> pydict \<times> pydict" where
  "inline_line line st =
     (case st of (result_lines, inline_map, link_map) \<Rightarrow>
        if sublist PH_CB line then (result_lines @ [line], inline_map, link_map)
        else
          (case extract_inline_code line inline_map of
             (line1, inline_map) \<Rightarrow>
               (case extract_links line1 link_map of
                  (line2, link_map) \<Rightarrow>
                    (let line3 = process_inline_formatting line2;
                         line4 = restore_placeholders line3 link_map;
                         line5 = restore_placeholders line4 inline_map
                     in (result_lines @ [line5], inline_map, link_map)))))"

definition inline_loop ::
  "pystr list \<Rightarrow> pystr list \<times> pydict \<times> pydict \<Rightarrow> pystr list \<times> pydict \<times> pydict" where
  "inline_loop lines st = fold inline_line lines st"

definition convert :: "pyunicode \<Rightarrow> pystr \<Rightarrow> py_error + pystr" where
  "convert U text =
     (let trailing_newline = suffix [10] text;
          lines = splitlines text
      in case extract_code_blocks U lines of
           Inl e \<Rightarrow> Inl e
         | Inr (lines, code_map) \<Rightarrow>
             (case process_block_structure U lines of
                Inl e \<Rightarrow> Inl e
              | Inr lines \<Rightarrow>
                  (let result_lines = fst (inline_loop lines ([], [], []));
                       output = restore_placeholders (join [10] result_lines) code_map
                   in Inr (if trailing_newline then output @ [10] else output))))"

text \<open>A value of the parameter for inputs in ASCII, where it is never consulted.\<close>

definition ascii_only :: pyunicode where
  "ascii_only = \<lparr>uni_alnum = (\<lambda>c. False), uni_decimal = (\<lambda>c. False)\<rparr>"

section \<open>The claims in the words of the specification\<close>

text \<open>The replacement of a fenced block as the specification words it: the header, with
  the language when there is one, the body lines, and a closing line.\<close>

definition fenced_block :: "pystr \<Rightarrow> pystr list \<Rightarrow> pystr" where
  "fenced_block lang body =
     (if lang = [] then lit ''{code}'' else lit ''{code:language='' @ lang @ lit ''}'') @
     [10] @ join [10] body @ [10] @ lit ''{code}''"





text \<open>The stack of a list item at \<open>depth\<close>: the entries below that depth are kept,
  missing ones are of the item's type, and the entry at \<open>depth\<close> is the item's type.\<close>

definition item_stack :: "list_type \<Rightarrow> nat \<Rightarrow> list_type list \<Rightarrow> list_type list" where
  "item_stack t depth list_stack =
     take (depth - 1) list_stack @ replicate (depth - 1 - length list_stack) t @ [t]"

text \<open>What a list item line becomes.\<close>

definition task_render :: "pystr \<Rightarrow> pystr" where
  "task_render content =
     (case TASK_CHECKED_match content of
        Some rest \<Rightarrow> lit '' (/) '' @ rest
      | None \<Rightarrow>
          (case TASK_UNCHECKED_match content of
             Some rest \<Rightarrow> lit '' ( ) '' @ rest
           | None \<Rightarrow> lit '' '' @ content))"

text \<open>\<open>pattern.search(line) is not None\<close>: the pattern matches somewhere in the line.\<close>

fun re_finds :: "(nat option \<Rightarrow> pystr \<Rightarrow> ('g \<times> pystr) option) \<Rightarrow> nat option \<Rightarrow> pystr \<Rightarrow> bool" where
  "re_finds match_at prev [] = False"
| "re_finds match_at prev (c # cs) \<longleftrightarrow>
     match_at prev (c # cs) \<noteq> None \<or> re_finds match_at (Some c) cs"



text \<open>A string without any line boundary, and a string whose only line boundaries are
  line feeds.\<close>

definition no_break :: "pystr \<Rightarrow> bool" where
  "no_break s \<longleftrightarrow> (\<forall>c\<in>set s. \<not> is_linebreak c)"

definition lf_only :: "pystr \<Rightarrow> bool" where
  "lf_only s \<longleftrightarrow> (\<forall>c\<in>set s. is_linebreak c \<longrightarrow> c = 10)"

text \<open>A dictionary whose values are not empty and hold no line boundary.\<close>

definition good_map :: "pydict \<Rightarrow> bool" where
  "good_map m \<longleftrightarrow> (\<forall>(k, v)\<in>set m. no_break v \<and> v \<noteq> [])"

text \<open>A dictionary of fenced blocks: the values hold no line boundary but line feeds, and
  end with the closing brace of \<open>{code}\<close>.\<close>

definition block_map :: "pydict \<Rightarrow> bool" where
  "block_map m \<longleftrightarrow> (\<forall>(k, v)\<in>set m. lf_only v \<and> v \<noteq> [] \<and> last v = 125)"

text \<open>The content of an inline code span with its braces written as entities.\<close>

definition escape_braces :: "pystr \<Rightarrow> pystr" where
  "escape_braces content =
     concat (map (\<lambda>c. if c = 123 then lit ''&#123;'' else if c = 125 then lit ''&#125;'' else [c])
               content)"

text \<open>A line that none of the patterns for a whole line matches.\<close>

definition no_block_pattern :: "pyunicode \<Rightarrow> pystr \<Rightarrow> bool" where
  "no_block_pattern U line \<longleftrightarrow>
     FENCE_START_match U line = None \<and> \<not> TABLE_ROW_match line \<and> HEADING_match line = None \<and>
     \<not> HR_match line \<and> BLOCKQUOTE_match line = None \<and> UL_ITEM_match line = None \<and>
     OL_ITEM_match U line = None"

text \<open>The document as the specification reads it: the lines outside every block, and the
  fenced blocks, each with its language and its body. A block opens at a line that the
  opening pattern matches. Its body is the lines after that line up to the first line
  that closes the fence, and that line is dropped; without such a line the body is all
  the lines that remain.\<close>

datatype segment = Plain pystr | Fenced pystr "pystr list"

function segments :: "pyunicode \<Rightarrow> pystr list \<Rightarrow> segment list" where
  "segments U [] = []"
| "segments U (l # ls) =
     (case FENCE_START_match U l of
        None \<Rightarrow> Plain l # segments U ls
      | Some (g1, g2) \<Rightarrow>
          Fenced (strip g2) (takeWhile (\<lambda>x. \<not> fence_close_match (hd g1) x) ls) #
          segments U (drop 1 (dropWhile (\<lambda>x. \<not> fence_close_match (hd g1) x) ls)))"
  by pat_completeness auto
termination
  by (relation "measure (\<lambda>(U, ls). length ls)")
     (auto simp: less_Suc_eq_le intro: order_trans[OF diff_le_self length_dropWhile_le])

text \<open>The lines that stand for the document after the extraction, the blocks numbered
  from \<open>k\<close> in their order, and the dictionary of the blocks.\<close>

fun placeholder_lines :: "nat \<Rightarrow> segment list \<Rightarrow> pystr list" where
  "placeholder_lines k [] = []"
| "placeholder_lines k (Plain l # xs) = l # placeholder_lines k xs"
| "placeholder_lines k (Fenced lang body # xs) = ph PH_CB k # placeholder_lines (k + 1) xs"

fun placeholder_map :: "nat \<Rightarrow> segment list \<Rightarrow> pydict" where
  "placeholder_map k [] = []"
| "placeholder_map k (Plain l # xs) = placeholder_map k xs"
| "placeholder_map k (Fenced lang body # xs) =
     (ph PH_CB k, fenced_block lang body) # placeholder_map (k + 1) xs"

declare extract_loop.simps [simp del] pop_while.simps [simp del] append_while.simps [simp del]
  str_nat.simps [simp del] flatten_quote.simps [simp del] segments.simps [simp del]

section \<open>Fenced code blocks\<close>

lemma takeWhile_replicate_app:
  "x \<notin> set ys \<Longrightarrow> takeWhile (\<lambda>c. c = x) (replicate n x @ ys) = replicate n x"
  by (induction n) (auto simp: takeWhile_eq_Nil_iff intro: takeWhile_eq_Nil_iff[THEN iffD2])

lemma dropWhile_replicate_app:
  "x \<notin> set ys \<Longrightarrow> dropWhile (\<lambda>c. c = x) (replicate n x @ ys) = ys"
  by (induction n) (auto simp: dropWhile_eq_self_iff hd_in_set)

lemma FENCE_START_match_opener:
  assumes fc: "fc = 96 \<or> fc = 126" and n: "3 \<le> n"
    and lang: "list_all (\<lambda>c. is_word U c \<or> c = 43 \<or> c = 45) lang"
  shows "FENCE_START_match U (replicate n fc @ lang) = Some (replicate n fc, lang)"
proof -
  have nw: "\<not> (is_word U fc \<or> fc = 43 \<or> fc = 45)"
    using fc by (auto simp: is_word_def)
  with lang have notin: "fc \<notin> set lang" by (auto simp: list_all_iff)
  obtain m where m: "n = Suc m" using n by (cases n) auto
  have tw: "takeWhile (\<lambda>x. x = fc) (replicate n fc @ lang) = replicate n fc"
    and dw: "dropWhile (\<lambda>x. x = fc) (replicate n fc @ lang) = lang"
    using notin by (simp_all add: takeWhile_replicate_app dropWhile_replicate_app)
  have tl: "takeWhile (\<lambda>x. is_word U x \<or> x = 43 \<or> x = 45) lang = lang"
    and dl: "dropWhile (\<lambda>x. is_word U x \<or> x = 43 \<or> x = 45) lang = []"
    using lang by (simp_all add: list_all_iff)
  have hd: "replicate n fc @ lang = fc # (replicate m fc @ lang)" by (simp add: m)
  show ?thesis
    unfolding FENCE_START_match_def using fc n tw dw tl dl
    by (simp add: hd at_dollar_def Let_def del: replicate_Suc) 
qed

lemma collect_body_closed:
  "\<forall>l\<in>set body. \<not> fence_close_match fc l \<Longrightarrow> fence_close_match fc closer \<Longrightarrow>
   collect_body fc (body @ closer # rest) = (body, rest)"
  by (induction body) auto

lemma collect_body_open:
  "\<forall>l\<in>set body. \<not> fence_close_match fc l \<Longrightarrow> collect_body fc body = (body, [])"
  by (induction body) auto

lemma fence_close_match_iff:
  assumes "\<not> is_space fc"
  shows "fence_close_match fc l \<longleftrightarrow> (\<exists>k ws. l = replicate k fc @ ws \<and> 3 \<le> k \<and> list_all is_space ws)"
proof
  assume h: "fence_close_match fc l"
  have "l = takeWhile (\<lambda>x. x = fc) l @ dropWhile (\<lambda>x. x = fc) l" by simp
  moreover have "takeWhile (\<lambda>x. x = fc) l = replicate (length (takeWhile (\<lambda>x. x = fc) l)) fc"
    by (rule replicate_length_same[symmetric]) (auto dest: set_takeWhileD)
  ultimately show "\<exists>k ws. l = replicate k fc @ ws \<and> 3 \<le> k \<and> list_all is_space ws"
    using h unfolding fence_close_match_def by metis
next
  assume "\<exists>k ws. l = replicate k fc @ ws \<and> 3 \<le> k \<and> list_all is_space ws"
  then obtain k ws where l: "l = replicate k fc @ ws" and k: "3 \<le> k" and ws: "list_all is_space ws"
    by blast
  from ws assms have "fc \<notin> set ws" by (auto simp: list_all_iff)
  then show "fence_close_match fc l"
    unfolding fence_close_match_def l using k ws
    by (simp add: takeWhile_replicate_app dropWhile_replicate_app)
qed

lemma dropWhile_none: "\<forall>x\<in>set xs. \<not> P x \<Longrightarrow> dropWhile P xs = xs"
  by (cases xs) auto

lemma strip_no_space: "\<forall>c\<in>set s. \<not> is_space c \<Longrightarrow> strip s = s"
  by (simp add: strip_def lstrip_def rstrip_def dropWhile_none)


section \<open>Tables\<close>

lemma TABLE_ROW_match_hd: "TABLE_ROW_match l \<Longrightarrow> l \<noteq> [] \<and> hd l = 124"
  by (cases l; cases "tl l") (auto simp: TABLE_ROW_match_def piped_def suffix_def)




lemma filter_index_none:
  "\<forall>r\<in>set rows. \<not> P r \<Longrightarrow> filter (\<lambda>i. P (rows ! i)) [0..<length rows] = []"
  by (auto simp: filter_empty_conv)

lemma filter_index_first:
  assumes "\<forall>r\<in>set before. \<not> P r" "P s"
  shows "\<exists>more. filter (\<lambda>i. P ((before @ s # after) ! i)) [0..<length (before @ s # after)] =
           length before # more"
proof -
  let ?rows = "before @ s # after"
  have "[0..<length before + Suc (length after)] =
      [0..<length before] @ [length before..<length before + Suc (length after)]"
    by (rule upt_add_eq_append) simp
  moreover have "[length before..<length before + Suc (length after)] =
      length before # [Suc (length before)..<length before + Suc (length after)]"
    by (rule upt_conv_Cons) simp
  ultimately have split: "[0..<length ?rows] =
      [0..<length before] @ length before # [Suc (length before)..<length ?rows]"
    by simp
  have "filter (\<lambda>i. P (?rows ! i)) [0..<length before] = []"
    using assms(1) by (auto simp: filter_empty_conv nth_append)
  then show ?thesis
    unfolding split using assms(2) by (simp add: nth_append)
qed

lemma process_table_no_sep:
  assumes "\<forall>r\<in>set rows. \<not> TABLE_SEP_match r"
  shows "process_table rows = map (\<lambda>row. format_table_row row False) rows"
  unfolding process_table_def by (simp add: filter_index_none[OF assms])

lemma process_table_sep:
  assumes "\<forall>r\<in>set before. \<not> TABLE_SEP_match r" "TABLE_SEP_match s"
  shows "process_table (before @ s # after) =
     map (\<lambda>row. format_table_row row True) before @
     map (\<lambda>row. format_table_row row False) (filter (\<lambda>row. \<not> TABLE_SEP_match row) after)"
proof -
  from filter_index_first[of before TABLE_SEP_match s after, OF assms] obtain more where
    f: "filter (\<lambda>i. TABLE_SEP_match ((before @ s # after) ! i)) [0..<length (before @ s # after)] =
           length before # more" by blast
  show ?thesis unfolding process_table_def Let_def f by simp
qed




section \<open>List items\<close>

lemma pop_while_take: "pop_while depth st = Inr (take depth st)"
proof (induction depth st rule: pop_while.induct)
  case (1 depth st)
  show ?case
  proof (cases "length st > depth")
    case True
    then have ne: "st \<noteq> []" by auto
    have "pop_while depth st = pop_while depth (butlast st)"
      using True ne by (subst pop_while.simps) simp
    also have "\<dots> = Inr (take depth (butlast st))" using 1 True ne by simp
    also have "take depth (butlast st) = take depth st" using True by (simp add: take_butlast)
    finally show ?thesis .
  next
    case False
    then show ?thesis by (subst pop_while.simps) simp
  qed
qed

lemma append_while_replicate:
  "append_while t depth st = st @ replicate (depth - length st) t"
proof (induction t depth st rule: append_while.induct)
  case (1 t depth st)
  show ?case
  proof (cases "length st < depth")
    case True
    then have "depth - length st = Suc (depth - Suc (length st))" by simp
    then have "st @ replicate (depth - length st) t = (st @ [t]) @ replicate (depth - Suc (length st)) t"
      by simp
    moreover have "append_while t depth st = append_while t depth (st @ [t])"
      using True by (subst append_while.simps) simp
    ultimately show ?thesis using 1 True by simp
  next
    case False
    then show ?thesis by (subst append_while.simps) simp
  qed
qed

lemma update_stack_item:
  assumes "1 \<le> depth"
  shows "update_stack t depth st = Inr (item_stack t depth st)"
proof -
  let ?s2 = "take depth st @ replicate (depth - length (take depth st)) t"
  have len: "length ?s2 = depth" by simp
  have "setitem ?s2 (int depth - 1) t = Inr (?s2[depth - 1 := t])"
    using assms unfolding setitem_def Let_def len by (simp add: nat_diff_distrib')
  moreover have "?s2[depth - 1 := t] = item_stack t depth st"
  proof (rule nth_equalityI)
    show "length (?s2[depth - 1 := t]) = length (item_stack t depth st)"
      using assms by (auto simp: item_stack_def)
  next
    fix i assume "i < length (?s2[depth - 1 := t])"
    then have i: "i < depth" by simp
    show "?s2[depth - 1 := t] ! i = item_stack t depth st ! i"
      using i assms by (auto simp: item_stack_def nth_append nth_list_update)
  qed
  ultimately show ?thesis
    by (simp add: update_stack_def pop_while_take append_while_replicate)
qed

lemma HEADING_match_hd: "HEADING_match l = Some g \<Longrightarrow> l \<noteq> [] \<and> hd l = 35"
  by (cases l) (auto simp: HEADING_match_def Let_def split: if_splits)

lemma BLOCKQUOTE_match_hd: "BLOCKQUOTE_match l = Some g \<Longrightarrow> l \<noteq> [] \<and> hd l = 62"
  by (cases l) (auto simp: BLOCKQUOTE_match_def split: if_splits)

lemma hd_indented: "list_all is_space indent \<Longrightarrow> hd (indent @ m # xs) = m \<or> is_space (hd (indent @ m # xs))"
  by (cases indent) auto

lemma takeWhile_indent:
  "list_all P indent \<Longrightarrow> \<not> P m \<Longrightarrow> takeWhile P (indent @ m # xs) = indent"
  by (induction indent) auto

lemma dropWhile_indent:
  "list_all P indent \<Longrightarrow> \<not> P m \<Longrightarrow> dropWhile P (indent @ m # xs) = m # xs"
  by (induction indent) auto

lemma dropWhile_gap:
  "list_all P gap \<Longrightarrow> content = [] \<or> \<not> P (hd content) \<Longrightarrow> dropWhile P (gap @ content) = content"
  by (induction gap) (auto simp: dropWhile_eq_self_iff)

lemma takeWhile_all: "x \<notin> set xs \<Longrightarrow> takeWhile (\<lambda>c. c \<noteq> x) xs = xs"
  by (induction xs) auto

lemma UL_ITEM_match_item:
  assumes "list_all is_space indent" "m = 45 \<or> m = 42 \<or> m = 43"
    and "gap \<noteq> []" "list_all is_space gap" "content = [] \<or> \<not> is_space (hd content)" "10 \<notin> set content"
  shows "UL_ITEM_match (indent @ m # gap @ content) = Some (indent, content)"
proof -
  have m: "\<not> is_space m" using assms(2) by (auto simp: is_space_def)
  obtain g gs where gap: "gap = g # gs" using assms(3) by (cases gap) auto
  have g: "is_space g" using assms(4) gap by simp
  show ?thesis
    unfolding UL_ITEM_match_def Let_def takeWhile_indent[OF assms(1) m] dropWhile_indent[OF assms(1) m]
    using assms(2) g dropWhile_gap[OF assms(4,5)] takeWhile_all[OF assms(6)]
    by (simp add: gap)
qed

lemma is_digit_not_space: "is_digit U c \<Longrightarrow> \<not> is_space c"
  by (auto simp: is_digit_def is_space_def split: if_splits)

lemma OL_ITEM_match_item:
  assumes "list_all is_space indent" "digits \<noteq> []" "list_all (is_digit U) digits"
    and "gap \<noteq> []" "list_all is_space gap" "content = [] \<or> \<not> is_space (hd content)" "10 \<notin> set content"
  shows "OL_ITEM_match U (indent @ digits @ 46 # gap @ content) = Some (indent, content)"
proof -
  obtain d ds where digits: "digits = d # ds" using assms(2) by (cases digits) auto
  have d: "\<not> is_space d" using assms(3) digits by (auto dest: is_digit_not_space)
  have dot: "\<not> is_digit U 46" by (simp add: is_digit_def)
  obtain g gs where gap: "gap = g # gs" using assms(4) by (cases gap) auto
  have g: "is_space g" using assms(5) gap by simp
  have t1: "takeWhile is_space (indent @ digits @ 46 # gap @ content) = indent"
    and d1: "dropWhile is_space (indent @ digits @ 46 # gap @ content) = digits @ 46 # gap @ content"
    using takeWhile_indent[OF assms(1) d, of "ds @ 46 # gap @ content"]
      dropWhile_indent[OF assms(1) d, of "ds @ 46 # gap @ content"] by (simp_all add: digits)
  show ?thesis
    unfolding OL_ITEM_match_def Let_def t1 d1 takeWhile_indent[OF assms(3) dot] dropWhile_indent[OF assms(3) dot]
    using assms(2) g dropWhile_gap[OF assms(5,6)] takeWhile_all[OF assms(7)]
    by (simp add: gap)
qed

lemma UL_ITEM_match_digit:
  assumes "list_all is_space indent" "digits \<noteq> []" "list_all (is_digit U) digits"
  shows "UL_ITEM_match (indent @ digits @ xs) = None"
proof -
  obtain d ds where digits: "digits = d # ds" using assms(2) by (cases digits) auto
  have d: "\<not> is_space d" using assms(3) digits by (auto dest: is_digit_not_space)
  have dd: "is_digit U d" using assms(3) digits by simp
  then have nm: "\<not> (d = 45 \<or> d = 42 \<or> d = 43)" by (auto simp: is_digit_def)
  show ?thesis
    unfolding UL_ITEM_match_def Let_def
    using dropWhile_indent[OF assms(1) d, of "ds @ xs"] nm by (simp add: digits)
qed

lemma block_line_ul:
  assumes "\<not> sublist PH_CB line" "UL_ITEM_match line = Some (indent, content)"
    "line \<noteq> []" "is_space (hd line) \<or> hd line = 45 \<or> hd line = 42 \<or> hd line = 43"
  shows "block_line U line (list_stack, table_buffer, result) =
     Inr (item_stack ul (length indent div 2 + 1) list_stack, [],
          flush_table table_buffer result @
            [list_prefix (item_stack ul (length indent div 2 + 1) list_stack) @ task_render content])"
proof -
  have hdl: "hd line \<noteq> 124 \<and> hd line \<noteq> 35 \<and> hd line \<noteq> 62"
    using assms(4) by (auto simp: is_space_def)
  have t: "\<not> TABLE_ROW_match line" using TABLE_ROW_match_hd[of line] hdl by auto
  have h: "HEADING_match line = None" using HEADING_match_hd[of line] hdl by (cases "HEADING_match line") auto
  have b: "BLOCKQUOTE_match line = None"
    using BLOCKQUOTE_match_hd[of line] hdl by (cases "BLOCKQUOTE_match line") auto
  have len: "length (item_stack ul (length indent div 2 + 1) list_stack) = length indent div 2 + 1"
    by (simp add: item_stack_def)
  show ?thesis
    unfolding block_line_def
    using assms(1,2) t h b len
    by (simp add: update_stack_item Let_def task_render_def split: option.splits)
qed

lemma block_line_ol:
  assumes "\<not> sublist PH_CB line" "OL_ITEM_match U line = Some (indent, content)" "UL_ITEM_match line = None"
    "line \<noteq> []" "is_space (hd line) \<or> is_digit U (hd line)"
  shows "block_line U line (list_stack, table_buffer, result) =
     Inr (item_stack ol (length indent div 2 + 1) list_stack, [],
          flush_table table_buffer result @
            [list_prefix (item_stack ol (length indent div 2 + 1) list_stack) @ lit '' '' @ content])"
proof -
  have hdl: "hd line \<noteq> 124 \<and> hd line \<noteq> 35 \<and> hd line \<noteq> 62"
    using assms(5) by (auto simp: is_space_def is_digit_def)
  have t: "\<not> TABLE_ROW_match line" using TABLE_ROW_match_hd[of line] hdl by auto
  have h: "HEADING_match line = None" using HEADING_match_hd[of line] hdl by (cases "HEADING_match line") auto
  have b: "BLOCKQUOTE_match line = None"
    using BLOCKQUOTE_match_hd[of line] hdl by (cases "BLOCKQUOTE_match line") auto
  have len: "length (item_stack ol (length indent div 2 + 1) list_stack) = length indent div 2 + 1"
    by (simp add: item_stack_def)
  show ?thesis
    unfolding block_line_def
    using assms(1,2,3) t h b len
    by (simp add: update_stack_item Let_def)
qed

lemma no_NUL_no_PH_CB: "0 \<notin> set l \<Longrightarrow> \<not> sublist PH_CB l"
  by (auto simp: PH_CB_def dest: set_mono_sublist)



lemma list_prefix_map: "list_prefix S = map (\<lambda>t. if t = ul then 42 else 35) S"
  by (induction S) (auto simp: list_prefix_def lit_def)

lemma item_stack_props:
  assumes "1 \<le> depth"
  shows "length (item_stack t depth st) = depth"
    and "item_stack t depth st ! (depth - 1) = t"
    and "i < depth - 1 \<Longrightarrow> item_stack t depth st ! i = (if i < length st then st ! i else t)"
  using assms by (auto simp: item_stack_def nth_append)

lemma TASK_UNCHECKED_match_marker:
  assumes "gap \<noteq> []" "list_all is_space gap" "rest = [] \<or> \<not> is_space (hd rest)"
  shows "task_render (lit ''[ ]'' @ gap @ rest) = lit '' ( ) '' @ rest"
proof -
  obtain g gs where gap: "gap = g # gs" using assms(1) by (cases gap) auto
  have g: "is_space g" "list_all is_space gs" using assms(2) gap by simp_all
  show ?thesis
    using g dropWhile_gap[OF g(2) assms(3)]
    by (simp add: task_render_def TASK_CHECKED_match_def TASK_UNCHECKED_match_def lit_def gap)
qed

lemma TASK_CHECKED_match_marker:
  assumes "x = 120 \<or> x = 88" "gap \<noteq> []" "list_all is_space gap" "rest = [] \<or> \<not> is_space (hd rest)"
  shows "task_render (91 # x # 93 # gap @ rest) = lit '' (/) '' @ rest"
proof -
  obtain g gs where gap: "gap = g # gs" using assms(2) by (cases gap) auto
  have g: "is_space g" "list_all is_space gs" using assms(3) gap by simp_all
  show ?thesis
    using g assms(1) dropWhile_gap[OF g(2) assms(4)]
    by (auto simp add: task_render_def TASK_CHECKED_match_def lit_def gap)
qed

lemma block_line_list_item:
  assumes ph: "\<not> sublist PH_CB line"
    and indent: "list_all is_space indent"
    and gap: "gap \<noteq> []" "list_all is_space gap"
    and content: "content = [] \<or> \<not> is_space (hd content)" "10 \<notin> set content"
    and marker: "(t = ul \<and> (marker = [45] \<or> marker = [42] \<or> marker = [43])) \<or>
                 (t = ol \<and> (\<exists>digits. digits \<noteq> [] \<and> list_all (is_digit U) digits \<and> marker = digits @ [46]))"
    and line: "line = indent @ marker @ gap @ content"
    and depth: "depth = length indent div 2 + 1"
    and S: "S = item_stack t depth list_stack"
  shows "block_line U line (list_stack, table_buffer, result) =
           Inr (S, [], flush_table table_buffer result @
                  [list_prefix S @ (if t = ul then task_render content else lit '' '' @ content)])"
proof (cases t)
  case ul
  with marker obtain m where m: "marker = [m]" "m = 45 \<or> m = 42 \<or> m = 43" by auto
  have l: "line = indent @ m # gap @ content" using line m by simp
  have u: "UL_ITEM_match line = Some (indent, content)"
    unfolding l using UL_ITEM_match_item[OF indent m(2) gap content] .
  have hd: "is_space (hd line) \<or> hd line = 45 \<or> hd line = 42 \<or> hd line = 43"
    using hd_indented[OF indent, of m "gap @ content"] m(2) unfolding l by auto
  have ne: "line \<noteq> []" unfolding l by simp
  show ?thesis
    using block_line_ul[OF ph u ne hd, of U list_stack table_buffer result] ul
    unfolding S depth by simp
next
  case ol
  with marker obtain digits where dg: "digits \<noteq> []" "list_all (is_digit U) digits"
    "marker = digits @ [46]" by auto
  have l: "line = indent @ digits @ 46 # gap @ content" using line dg by simp
  have o: "OL_ITEM_match U line = Some (indent, content)"
    unfolding l using OL_ITEM_match_item[OF indent dg(1,2) gap content] .
  have u: "UL_ITEM_match line = None"
    unfolding l using UL_ITEM_match_digit[OF indent dg(1,2)] .
  obtain dd ds where dds: "digits = dd # ds" using dg(1) by (cases digits) auto
  have "is_digit U dd" using dg(2) dds by simp
  then have hd: "is_space (hd line) \<or> is_digit U (hd line)"
    using hd_indented[OF indent, of dd "ds @ 46 # gap @ content"] unfolding l dds by auto
  have ne: "line \<noteq> []" unfolding l using dg(1) by simp
  show ?thesis
    using block_line_ol[OF ph o u ne hd, of list_stack table_buffer result] ol
    unfolding S depth by simp
qed

section \<open>The converter returns\<close>

lemma FENCE_START_match_group1:
  "FENCE_START_match U l = Some (g1, g2) \<Longrightarrow> \<exists>fc g. g1 = fc # g \<and> (fc = 96 \<or> fc = 126) \<and> set g2 \<subseteq> set l"
  by (cases l) (auto simp: FENCE_START_match_def Let_def split: if_splits dest: set_takeWhileD set_dropWhileD)

lemma collect_body_subset:
  "set (fst (collect_body fc ls)) \<subseteq> set ls \<and> set (snd (collect_body fc ls)) \<subseteq> set ls"
  by (induction ls) (auto split: prod.splits)

text \<open>An invariant of the extraction loop.\<close>

lemma extract_loop_invariant:
  assumes init: "I result code_map counter"
    and keep: "\<And>l result code_map counter. l \<in> set ls \<Longrightarrow> FENCE_START_match U l = None \<Longrightarrow>
         I result code_map counter \<Longrightarrow> I (result @ [l]) code_map counter"
    and block: "\<And>l fc g g2 body result code_map counter. l \<in> set ls \<Longrightarrow>
         FENCE_START_match U l = Some (fc # g, g2) \<Longrightarrow> set body \<subseteq> set ls \<Longrightarrow>
         I result code_map counter \<Longrightarrow>
         I (result @ [ph PH_CB counter])
           (dict_set code_map (ph PH_CB counter) (fenced_block (strip g2) body)) (counter + 1)"
  shows "\<exists>result' code_map' counter'.
           extract_loop U ls result code_map counter = Inr (result', code_map') \<and>
           I result' code_map' counter'"
  using assms
proof (induction U ls result code_map counter rule: extract_loop.induct)
  case (1 U result code_map counter)
  then show ?case by (auto simp: extract_loop.simps)
next
  case (2 U l ls result code_map counter)
  show ?case
  proof (cases "FENCE_START_match U l")
    case None
    have "\<exists>result' code_map' counter'.
           extract_loop U ls (result @ [l]) code_map counter = Inr (result', code_map') \<and>
           I result' code_map' counter'"
    proof (rule "2.IH"(1)[OF None])
      show "I (result @ [l]) code_map counter" using "2.prems"(2)[of l] None "2.prems"(1) by simp
    next
      fix l' result code_map counter
      assume "l' \<in> set ls" "FENCE_START_match U l' = None" "I result code_map counter"
      then show "I (result @ [l']) code_map counter" using "2.prems"(2)[of l'] by auto
    next
      fix l' fc g g2 body result code_map counter
      assume "l' \<in> set ls" "FENCE_START_match U l' = Some (fc # g, g2)" "set body \<subseteq> set ls"
        "I result code_map counter"
      then show "I (result @ [ph PH_CB counter])
           (dict_set code_map (ph PH_CB counter) (fenced_block (strip g2) body)) (counter + 1)"
        using "2.prems"(3)[of l' fc g g2 body] by (simp add: subset_insertI2)
    qed
    then show ?thesis using None by (simp add: extract_loop.simps)
  next
    case (Some p)
    obtain g1 g2 where p: "p = (g1, g2)" by (cases p)
    from FENCE_START_match_group1[of U l g1 g2] Some p
    obtain fc g where g1: "g1 = fc # g" by auto
    let ?body = "fst (collect_body fc ls)"
    let ?rest = "snd (collect_body fc ls)"
    let ?raw = "(if strip g2 \<noteq> [] then lit ''{code:language='' @ strip g2 @ lit ''}'' else lit ''{code}'') @
        [10] @ join [10] ?body @ lit ''\<newline>{code}''"
    have blk: "?raw = fenced_block (strip g2) ?body"
      by (simp add: fenced_block_def lit_def)
    have sub: "set ?body \<subseteq> set (l # ls)" "set ?rest \<subseteq> set ls"
      using collect_body_subset[of fc ls] by auto
    have "\<exists>result' code_map' counter'.
           extract_loop U ?rest (result @ [ph PH_CB counter])
             (dict_set code_map (ph PH_CB counter) ?raw) (counter + 1) =
           Inr (result', code_map') \<and> I result' code_map' counter'"
    proof (rule "2.IH"(2)[OF Some p[symmetric] g1 refl refl refl refl refl refl])
      show "I (result @ [ph PH_CB counter])
             (dict_set code_map (ph PH_CB counter) ?raw) (counter + 1)"
        unfolding blk
        using "2.prems"(3)[of l fc g g2 ?body result code_map counter] Some p g1 sub "2.prems"(1)
        by simp
    next
      fix l' result code_map counter
      assume "l' \<in> set ?rest" "FENCE_START_match U l' = None" "I result code_map counter"
      then show "I (result @ [l']) code_map counter" using "2.prems"(2)[of l'] sub by auto
    next
      fix l' fc g g2 body result code_map counter
      assume "l' \<in> set ?rest" "FENCE_START_match U l' = Some (fc # g, g2)" "set body \<subseteq> set ?rest"
        "I result code_map counter"
      then show "I (result @ [ph PH_CB counter])
           (dict_set code_map (ph PH_CB counter) (fenced_block (strip g2) body)) (counter + 1)"
        using "2.prems"(3)[of l' fc g g2 body result code_map counter] sub by (simp add: subset_iff)
    qed
    then show ?thesis using Some p g1 by (simp add: extract_loop.simps Let_def)
  qed
qed

lemma block_line_total: "\<exists>st'. block_line U line st = Inr st'"
  by (cases st) (auto simp: block_line_def update_stack_item Let_def split: option.splits)

lemma suffix_single: "suffix [x] s \<longleftrightarrow> s \<noteq> [] \<and> last s = x"
proof (cases s rule: rev_cases)
  case Nil
  then show ?thesis by simp
next
  case (snoc ys y)
  have "suffix ([] @ [x]) (ys @ [y]) \<longleftrightarrow> x = y" by (simp only: snoc_suffix_snoc) simp
  then show ?thesis using snoc by auto
qed

lemma is_linebreak_LF [simp]: "is_linebreak 10"
  by (simp add: is_linebreak_def)





lemma extract_code_blocks_total: "\<exists>r. extract_code_blocks U ls = Inr r"
  using extract_loop_invariant[of "\<lambda>_ _ _. True" "[]" "[]" 0 ls U]
  by (auto simp: extract_code_blocks_def)

lemma block_loop_total: "\<exists>st'. block_loop U ls st = Inr st'"
proof (induction ls arbitrary: st)
  case Nil
  show ?case by (rule exI[of _ st]) simp
next
  case (Cons l ls)
  from block_line_total[of U l st] obtain st1 where st1: "block_line U l st = Inr st1" by blast
  from Cons[of st1] obtain st2 where "block_loop U ls st1 = Inr st2" by blast
  then show ?case by (intro exI[of _ st2]) (simp add: st1)
qed

lemma process_block_structure_total: "\<exists>r. process_block_structure U ls = Inr r"
proof -
  from block_loop_total[of U ls "([], [], [])"] obtain st where
    st: "block_loop U ls ([], [], []) = Inr st" by blast
  obtain a b c where "st = (a, b, c)" by (cases st)
  with st show ?thesis by (simp add: process_block_structure_def)
qed


section \<open>Text that matches no pattern\<close>

lemma re_sub_no_match:
  "\<not> re_finds match_at prev s \<Longrightarrow> re_sub match_at repl prev s st = (s, st)"
  by (induction s arbitrary: prev) (auto split: option.splits)

lemma restore_placeholders_empty [simp]: "restore_placeholders t [] = t"
  by (simp add: restore_placeholders_def)

lemma extract_inline_code_plain:
  "\<not> re_finds INLINE_CODE_match_at None l \<Longrightarrow> extract_inline_code l m = (l, m)"
  by (simp add: extract_inline_code_def re_sub_no_match)

lemma extract_links_plain:
  "\<not> re_finds IMAGE_match_at None l \<Longrightarrow> \<not> re_finds LINK_match_at None l \<Longrightarrow>
   extract_links l m = (l, m)"
  by (simp add: extract_links_def re_sub_no_match)

lemma process_inline_formatting_plain:
  "\<not> re_finds BOLD_ITALIC_match_at None l \<Longrightarrow> \<not> re_finds BOLD_match_at None l \<Longrightarrow>
   \<not> re_finds ITALIC_match_at None l \<Longrightarrow> \<not> re_finds STRIKE_match_at None l \<Longrightarrow>
   process_inline_formatting l = l"
  by (simp add: process_inline_formatting_def re_sub_no_match)








lemma re_finds_needs:
  assumes "\<And>p s. match_at p s \<noteq> None \<Longrightarrow> set s \<inter> A \<noteq> {}"
  shows "re_finds match_at prev l \<Longrightarrow> set l \<inter> A \<noteq> {}"
proof (induction l arbitrary: prev)
  case Nil
  then show ?case by simp
next
  case (Cons c cs)
  then show ?case using assms[of prev "c # cs"] by auto
qed

lemma INLINE_CODE_needs: "INLINE_CODE_match_at p s \<noteq> None \<Longrightarrow> set s \<inter> {96} \<noteq> {}"
  by (cases s) (auto simp: INLINE_CODE_match_at_def split: if_splits)

lemma LINK_needs: "LINK_match_at p s \<noteq> None \<Longrightarrow> set s \<inter> {91} \<noteq> {}"
  by (cases s) (auto simp: LINK_match_at_def split: if_splits)

lemma IMAGE_needs: "IMAGE_match_at p s \<noteq> None \<Longrightarrow> set s \<inter> {91} \<noteq> {}"
  using LINK_needs[of "Some 33" "tl s"]
  by (cases s) (auto simp: IMAGE_match_at_def split: if_splits)

lemma delimited_needs: "0 < n \<Longrightarrow> delimited_match_at n p s \<noteq> None \<Longrightarrow> set s \<inter> {42, 95} \<noteq> {}"
  by (cases s; cases n) (auto simp: delimited_match_at_def split: if_splits)

lemma BOLD_ITALIC_needs: "BOLD_ITALIC_match_at p s \<noteq> None \<Longrightarrow> set s \<inter> {42, 95} \<noteq> {}"
  unfolding BOLD_ITALIC_match_at_def by (rule delimited_needs[of 3]) simp_all

lemma BOLD_needs: "BOLD_match_at p s \<noteq> None \<Longrightarrow> set s \<inter> {42, 95} \<noteq> {}"
  unfolding BOLD_match_at_def by (rule delimited_needs[of 2]) simp_all

lemma ITALIC_needs: "ITALIC_match_at p s \<noteq> None \<Longrightarrow> set s \<inter> {42, 95} \<noteq> {}"
  by (cases s) (auto simp: ITALIC_match_at_def split: if_splits)

lemma STRIKE_needs: "STRIKE_match_at p s \<noteq> None \<Longrightarrow> set s \<inter> {126} \<noteq> {}"
  by (cases s) (auto simp: STRIKE_match_at_def split: if_splits)

lemma no_inline_pattern:
  assumes "set l \<inter> {96, 91, 42, 95, 126} = {}"
  shows "\<not> re_finds INLINE_CODE_match_at prev l" "\<not> re_finds IMAGE_match_at prev l"
    "\<not> re_finds LINK_match_at prev l" "\<not> re_finds BOLD_ITALIC_match_at prev l"
    "\<not> re_finds BOLD_match_at prev l" "\<not> re_finds ITALIC_match_at prev l"
    "\<not> re_finds STRIKE_match_at prev l"
proof -
  show "\<not> re_finds INLINE_CODE_match_at prev l"
    using re_finds_needs[of INLINE_CODE_match_at "{96}" prev l, OF INLINE_CODE_needs] assms by auto
  show "\<not> re_finds IMAGE_match_at prev l"
    using re_finds_needs[of IMAGE_match_at "{91}" prev l, OF IMAGE_needs] assms by auto
  show "\<not> re_finds LINK_match_at prev l"
    using re_finds_needs[of LINK_match_at "{91}" prev l, OF LINK_needs] assms by auto
  show "\<not> re_finds BOLD_ITALIC_match_at prev l"
    using re_finds_needs[of BOLD_ITALIC_match_at "{42, 95}" prev l, OF BOLD_ITALIC_needs] assms by auto
  show "\<not> re_finds BOLD_match_at prev l"
    using re_finds_needs[of BOLD_match_at "{42, 95}" prev l, OF BOLD_needs] assms by auto
  show "\<not> re_finds ITALIC_match_at prev l"
    using re_finds_needs[of ITALIC_match_at "{42, 95}" prev l, OF ITALIC_needs] assms by auto
  show "\<not> re_finds STRIKE_match_at prev l"
    using re_finds_needs[of STRIKE_match_at "{126}" prev l, OF STRIKE_needs] assms by auto
qed

lemma no_block_pattern:
  assumes "l = [] \<or> hd l \<notin> {96, 126, 124, 35, 42, 45, 95, 62, 43} \<and> \<not> is_space (hd l) \<and> \<not> is_digit U (hd l)"
  shows "FENCE_START_match U l = None" "\<not> TABLE_ROW_match l" "HEADING_match l = None"
    "\<not> HR_match l" "BLOCKQUOTE_match l = None" "UL_ITEM_match l = None" "OL_ITEM_match U l = None"
proof -
  show "FENCE_START_match U l = None" using assms by (cases l) (auto simp: FENCE_START_match_def)
  show "\<not> TABLE_ROW_match l" using assms TABLE_ROW_match_hd[of l] by auto
  show "HEADING_match l = None" using assms HEADING_match_hd[of l] by (cases "HEADING_match l") auto
  show "\<not> HR_match l" using assms by (cases l) (auto simp: HR_match_def)
  show "BLOCKQUOTE_match l = None"
    using assms BLOCKQUOTE_match_hd[of l] by (cases "BLOCKQUOTE_match l") auto
  show "UL_ITEM_match l = None" using assms by (cases l) (auto simp: UL_ITEM_match_def)
  show "OL_ITEM_match U l = None" using assms by (cases l) (auto simp: OL_ITEM_match_def)
qed






section \<open>Line boundaries in the output\<close>

lemma no_break_simps [simp]:
  "no_break []" "no_break (c # s) \<longleftrightarrow> \<not> is_linebreak c \<and> no_break s"
  "no_break (s @ t) \<longleftrightarrow> no_break s \<and> no_break t"
  by (auto simp: no_break_def)

lemma no_break_subset: "set t \<subseteq> set s \<Longrightarrow> no_break s \<Longrightarrow> no_break t"
  by (auto simp: no_break_def)

lemma lf_only_simps [simp]:
  "lf_only []" "lf_only (c # s) \<longleftrightarrow> (is_linebreak c \<longrightarrow> c = 10) \<and> lf_only s"
  "lf_only (s @ t) \<longleftrightarrow> lf_only s \<and> lf_only t"
  by (auto simp: lf_only_def)

lemma no_break_lf_only: "no_break s \<Longrightarrow> lf_only s"
  by (auto simp: no_break_def lf_only_def)

lemma splitlines_from_no_break:
  "no_break cur \<Longrightarrow> l \<in> set (splitlines_from cur s) \<Longrightarrow> no_break l"
proof (induction cur s rule: splitlines_from.induct)
  case (1 cur)
  then show ?case by (auto split: if_splits)
next
  case (2 cur c)
  then show ?case by (auto split: if_splits)
next
  case (3 cur c d cs)
  show ?case
  proof (cases "c = 13 \<and> d = 10")
    case True
    then show ?thesis using 3 by auto
  next
    case False
    show ?thesis
    proof (cases "is_linebreak c")
      case True
      then show ?thesis using 3 False by auto
    next
      case nb: False
      have "no_break (cur @ [c])" using nb "3.prems"(1) by simp
      then show ?thesis using "3.IH"(3)[OF False nb] "3.prems"(2) False nb by simp
    qed
  qed
qed

lemma splitlines_no_break: "l \<in> set (splitlines s) \<Longrightarrow> no_break l"
  unfolding splitlines_def by (rule splitlines_from_no_break[of "[]"]) simp_all

lemma str_nat_digits: "set (str_nat n) \<subseteq> {48..57}"
proof (induction n rule: str_nat.induct)
  case (1 n)
  show ?case
  proof (cases "n < 10")
    case True
    then show ?thesis by (subst str_nat.simps) auto
  next
    case False
    have "n mod 10 < 10" by simp
    then have "48 + n mod 10 \<in> {48..57}" by auto
    then show ?thesis using 1 False by (subst str_nat.simps) auto
  qed
qed

lemma str_nat_nonempty: "str_nat n \<noteq> []"
  by (subst str_nat.simps) simp

lemma no_break_str_nat [simp]: "no_break (str_nat n)"
  using str_nat_digits[of n] by (auto simp: no_break_def is_linebreak_def)

lemma no_break_ph [simp]: "no_break (ph PH_CB n)" "no_break (ph PH_IC n)" "no_break (ph PH_LK n)"
  "no_break (ph PH_BD n)"
  by (simp_all add: ph_def PH_CB_def PH_IC_def PH_LK_def PH_BD_def PH_END_def lit_def is_linebreak_def)

lemma ph_nonempty [simp]: "ph tag n \<noteq> []"
  by (simp add: ph_def PH_END_def)

lemma set_strip: "set (strip s) \<subseteq> set s" "set (rstrip s) \<subseteq> set s" "set (lstrip s) \<subseteq> set s"
proof -
  show r: "\<And>s. set (rstrip s) \<subseteq> set s"
    unfolding rstrip_def using set_dropWhileD[of _ is_space "rev _"] by fastforce
  show l: "\<And>s. set (lstrip s) \<subseteq> set s"
    unfolding lstrip_def by (auto dest: set_dropWhileD)
  show "set (strip s) \<subseteq> set s" unfolding strip_def using r[of "lstrip s"] l[of s] by blast
qed

lemma join_set: "set (join sep xs) \<subseteq> set sep \<union> \<Union>(set ` set xs)"
  by (induction sep xs rule: join.induct) auto

lemma split_on_set: "\<Union>(set ` set (split_on d s)) \<subseteq> set s"
proof (induction s)
  case Nil
  then show ?case by simp
next
  case (Cons c cs)
  have ne: "split_on d cs \<noteq> []" by (cases cs) auto
  then have "split_on d cs = hd (split_on d cs) # tl (split_on d cs)" by simp
  then have "\<Union>(set ` set (split_on d cs)) = set (hd (split_on d cs)) \<union> \<Union>(set ` set (tl (split_on d cs)))"
    by (metis Union_image_insert list.simps(15))
  then show ?case using Cons by auto
qed

lemma dict_set_subset: "set (dict_set m k v) \<subseteq> set m \<union> {(k, v)}"
  by (induction m k v rule: dict_set.induct) auto

lemma good_map_dict_set: "good_map m \<Longrightarrow> no_break v \<Longrightarrow> v \<noteq> [] \<Longrightarrow> good_map (dict_set m k v)"
  using dict_set_subset[of m k v] by (fastforce simp: good_map_def)

lemma replace_from_set: "set (replace_from old new t) \<subseteq> set t \<union> set new"
proof (induction old new t rule: replace_from.induct)
  case (1 old new)
  then show ?case by simp
next
  case (2 old new c cs)
  have "set (drop (length old - 1) cs) \<subseteq> set cs" by (rule set_drop_subset)
  then show ?case using 2 by auto
qed

lemma replace_set: "set (replace old new t) \<subseteq> set t \<union> set new"
  using replace_from_set[of old new t] by (auto simp: replace_def)

lemma replace_from_nonempty: "t \<noteq> [] \<Longrightarrow> new \<noteq> [] \<Longrightarrow> replace_from old new t \<noteq> []"
  by (cases t) auto

lemma replace_nonempty: "t \<noteq> [] \<Longrightarrow> new \<noteq> [] \<Longrightarrow> replace old new t \<noteq> []"
  by (auto simp: replace_def replace_from_nonempty)

lemma restore_set:
  "set (restore_placeholders t m) \<subseteq> set t \<union> \<Union>(set ` snd ` set m)"
  unfolding restore_placeholders_def
proof (induction m arbitrary: t)
  case Nil
  then show ?case by simp
next
  case (Cons kv m)
  obtain k v where kv: "kv = (k, v)" by (cases kv)
  have "set (fold (\<lambda>(key, val). replace key val) m (replace k v t)) \<subseteq>
      set (replace k v t) \<union> \<Union>(set ` snd ` set m)" by (rule Cons)
  then show ?case using replace_set[of k v t] by (auto simp: kv)
qed

lemma restore_good:
  assumes "good_map m" "no_break t"
  shows "no_break (restore_placeholders t m)"
  using restore_set[of t m] assms by (fastforce simp: good_map_def no_break_def)

lemma restore_nonempty:
  "good_map m \<Longrightarrow> t \<noteq> [] \<Longrightarrow> restore_placeholders t m \<noteq> []"
  unfolding restore_placeholders_def
proof (induction m arbitrary: t)
  case Nil
  then show ?case by simp
next
  case (Cons kv m)
  obtain k v where kv: "kv = (k, v)" by (cases kv)
  have "v \<noteq> []" "good_map m" using Cons.prems(1) by (auto simp: good_map_def kv)
  then show ?case using Cons.IH[of "replace k v t"] Cons.prems(2) replace_nonempty[of t v k]
    by (simp add: kv)
qed

lemma HEADING_match_groups:
  "HEADING_match l = Some (g1, g2) \<Longrightarrow> set g2 \<subseteq> set l \<and> 1 \<le> length g1 \<and> length g1 \<le> 6"
  by (auto simp: HEADING_match_def Let_def split: if_splits dest!: set_takeWhileD set_dropWhileD)

lemma BLOCKQUOTE_match_group: "BLOCKQUOTE_match l = Some c \<Longrightarrow> set c \<subseteq> set l"
  by (cases l) (auto simp: BLOCKQUOTE_match_def split: if_splits dest!: set_takeWhileD list.set_sel(2))

lemma flatten_quote_set: "set (flatten_quote c) \<subseteq> set c"
proof (induction c rule: flatten_quote.induct)
  case (1 content)
  show ?case
  proof (cases "BLOCKQUOTE_match content")
    case None
    then show ?thesis by (subst flatten_quote.simps) simp
  next
    case (Some c')
    then show ?thesis
      using 1[OF Some] BLOCKQUOTE_match_group[OF Some] by (subst flatten_quote.simps) auto
  qed
qed

lemma UL_ITEM_match_group: "UL_ITEM_match l = Some (g1, c) \<Longrightarrow> set c \<subseteq> set l"
proof -
  assume h: "UL_ITEM_match l = Some (g1, c)"
  then obtain m after where d: "dropWhile is_space l = m # after"
    and c: "c = takeWhile (\<lambda>x. x \<noteq> 10) (dropWhile is_space after)"
    by (auto simp: UL_ITEM_match_def Let_def split: list.splits if_splits)
  have "set after \<subseteq> set (dropWhile is_space l)" using d by auto
  also have "\<dots> \<subseteq> set l" by (meson set_dropWhileD subsetI)
  finally have "set after \<subseteq> set l" .
  moreover have "set c \<subseteq> set after" unfolding c by (meson set_dropWhileD set_takeWhileD subsetI)
  ultimately show ?thesis by blast
qed

lemma OL_ITEM_match_group: "OL_ITEM_match U l = Some (g1, c) \<Longrightarrow> set c \<subseteq> set l"
proof -
  assume h: "OL_ITEM_match U l = Some (g1, c)"
  then obtain dot after where d: "dropWhile (is_digit U) (dropWhile is_space l) = dot # after"
    and c: "c = takeWhile (\<lambda>x. x \<noteq> 10) (dropWhile is_space after)"
    by (auto simp: OL_ITEM_match_def Let_def split: list.splits if_splits)
  have "set after \<subseteq> set (dropWhile (is_digit U) (dropWhile is_space l))" using d by auto
  also have "\<dots> \<subseteq> set l" by (meson set_dropWhileD subsetI)
  finally have "set after \<subseteq> set l" .
  moreover have "set c \<subseteq> set after" unfolding c by (meson set_dropWhileD set_takeWhileD subsetI)
  ultimately show ?thesis by blast
qed

lemma TASK_match_group:
  "TASK_CHECKED_match c = Some r \<Longrightarrow> set r \<subseteq> set c"
  "TASK_UNCHECKED_match c = Some r \<Longrightarrow> set r \<subseteq> set c"
  by (auto simp: TASK_CHECKED_match_def TASK_UNCHECKED_match_def split: list.splits if_splits
      dest!: set_dropWhileD)

lemma list_prefix_set: "set (list_prefix S) \<subseteq> {42, 35}"
  by (induction S) (auto simp: list_prefix_def lit_def)


lemma format_table_row_set: "set (format_table_row row h) \<subseteq> set row \<union> {124}"
proof -
  let ?i1 = "strip row"
  let ?i2 = "if prefix [124] ?i1 then tl ?i1 else ?i1"
  let ?i3 = "if suffix [124] ?i2 then butlast ?i2 else ?i2"
  have "set ?i2 \<subseteq> set ?i1" by (cases "strip row") auto
  moreover have "set ?i3 \<subseteq> set ?i2" by (auto dest: in_set_butlastD)
  ultimately have i3: "set ?i3 \<subseteq> set row" using set_strip(1)[of row] by blast
  have cells: "\<Union>(set ` set (map strip (split_on 124 ?i3))) \<subseteq> set row"
    using split_on_set[of 124 ?i3] i3 set_strip(1) by fastforce
  have "\<And>sep. set sep \<subseteq> {124} \<Longrightarrow>
      set (sep @ join sep (map strip (split_on 124 ?i3)) @ sep) \<subseteq> set row \<union> {124}"
    using join_set[of _ "map strip (split_on 124 ?i3)"] cells by fastforce
  then show ?thesis
    unfolding format_table_row_def Let_def by (simp add: lit_def)
qed

lemma format_table_row_last: "format_table_row row h \<noteq> [] \<and> last (format_table_row row h) = 124"
  by (simp add: format_table_row_def Let_def lit_def)

lemma process_table_set:
  "out \<in> set (process_table rows) \<Longrightarrow> \<exists>row\<in>set rows. \<exists>h. out = format_table_row row h"
  unfolding process_table_def Let_def
  by (auto split: list.splits dest: in_set_takeD in_set_dropD)

lemma block_line_cases:
  assumes "block_line U line (list_stack, table_buffer, result) = Inr (list_stack', table_buffer', result')"
  shows "(\<not> sublist PH_CB line \<and> TABLE_ROW_match line \<and> list_stack' = list_stack \<and>
          table_buffer' = table_buffer @ [line] \<and> result' = result) \<or>
         ((sublist PH_CB line \<or> \<not> TABLE_ROW_match line) \<and> table_buffer' = [] \<and>
          (\<exists>out. result' = flush_table table_buffer result @ [out] \<and> (line \<noteq> [] \<longrightarrow> out \<noteq> []) \<and>
                 set out \<subseteq> set line \<union> set (lit ''h0123456789. -bq*#(/)'')))"
proof (cases "sublist PH_CB line")
  case True
  then show ?thesis using assms by (auto simp: block_line_def)
next
  case ph: False
  show ?thesis
  proof (cases "TABLE_ROW_match line")
    case True
    then show ?thesis using assms ph by (auto simp: block_line_def)
  next
    case tr: False
    let ?L = "set (lit ''h0123456789. -bq*#(/)'')"
    let ?r = "flush_table table_buffer result"
    have enum: "\<And>x::nat. x \<in> {48..57} \<Longrightarrow>
        x = 48 \<or> x = 49 \<or> x = 50 \<or> x = 51 \<or> x = 52 \<or> x = 53 \<or> x = 54 \<or> x = 55 \<or> x = 56 \<or> x = 57"
      by (simp only: atLeastAtMost_iff) arith
    have "{48..57} \<subseteq> ?L"
    proof
      fix x :: nat assume "x \<in> {48..57}"
      from enum[OF this] show "x \<in> ?L" by (auto simp: lit_def)
    qed
    then have digits: "\<And>n. set (str_nat n) \<subseteq> ?L"
      using str_nat_digits by blast
    have pre: "\<And>S. set (list_prefix S) \<subseteq> ?L"
      using list_prefix_set by (fastforce simp: lit_def)
    show ?thesis
    proof (cases "HEADING_match line")
      case (Some g)
      obtain g1 g2 where g: "g = (g1, g2)" by (cases g)
      have "set (rstrip g2) \<subseteq> set line"
        using HEADING_match_groups[of line g1 g2] Some g set_strip(2)[of g2] by blast
      then have "set (lit ''h'' @ str_nat (length g1) @ lit ''. '' @ rstrip g2) \<subseteq> set line \<union> ?L"
        using digits[of "length g1"] by (auto simp: lit_def)
      then show ?thesis
        using assms ph tr Some g by (auto simp: block_line_def Let_def lit_def)
    next
      case hd: None
      show ?thesis
      proof (cases "HR_match line \<and> UL_ITEM_match line = None \<and> OL_ITEM_match U line = None")
        case True
        then show ?thesis using assms ph tr hd by (auto simp: block_line_def Let_def lit_def)
      next
        case hr: False
        show ?thesis
        proof (cases "BLOCKQUOTE_match line")
          case (Some content)
          have "set (flatten_quote content) \<subseteq> set line"
            using flatten_quote_set[of content] BLOCKQUOTE_match_group[OF Some] by blast
          then show ?thesis
            using assms ph tr hd hr Some by (auto simp: block_line_def Let_def lit_def)
        next
          case bq: None
          show ?thesis
          proof (cases "UL_ITEM_match line")
            case (Some g)
            obtain g1 content where g: "g = (g1, content)" by (cases g)
            have c: "set content \<subseteq> set line" using UL_ITEM_match_group[of line g1 content] Some g by simp
            let ?S = "item_stack ul (length g1 div 2 + 1) list_stack"
            have len: "length ?S = length g1 div 2 + 1" by (simp add: item_stack_def)
            have "set (task_render content) \<subseteq> set line \<union> ?L" "task_render content \<noteq> []"
              using c TASK_match_group[of content]
              by (auto simp: task_render_def lit_def split: option.splits)
            then have out: "set (list_prefix ?S @ task_render content) \<subseteq> set line \<union> ?L"
              "list_prefix ?S @ task_render content \<noteq> []"
              using pre[of ?S] by auto
            have "result' = ?r @ [list_prefix ?S @ task_render content] \<and> table_buffer' = []"
              using assms ph tr hd hr bq Some g len
              by (auto simp: block_line_def Let_def update_stack_item task_render_def split: option.splits)
            then show ?thesis using out ph tr by blast
          next
            case ul: None
            show ?thesis
            proof (cases "OL_ITEM_match U line")
              case (Some g)
              obtain g1 content where g: "g = (g1, content)" by (cases g)
              have c: "set content \<subseteq> set line" using OL_ITEM_match_group[of U line g1 content] Some g by simp
              let ?S = "item_stack ol (length g1 div 2 + 1) list_stack"
              have len: "length ?S = length g1 div 2 + 1" by (simp add: item_stack_def)
              have out: "set (list_prefix ?S @ lit '' '' @ content) \<subseteq> set line \<union> ?L"
                "list_prefix ?S @ lit '' '' @ content \<noteq> []"
                using pre[of ?S] c by (auto simp: lit_def)
              have "result' = ?r @ [list_prefix ?S @ lit '' '' @ content] \<and> table_buffer' = []"
                using assms ph tr hd hr bq ul Some g len
                by (auto simp: block_line_def Let_def update_stack_item)
              then show ?thesis using out ph tr by blast
            next
              case None
              then show ?thesis
                using assms ph tr hd hr bq ul by (auto simp: block_line_def Let_def)
            qed
          qed
        qed
      qed
    qed
  qed
qed

lemma format_table_row_no_break: "no_break row \<Longrightarrow> no_break (format_table_row row h)"
  using format_table_row_set[of row h] by (fastforce simp: no_break_def is_linebreak_def)

lemma flush_table_no_break:
  assumes "list_all no_break table_buffer" "list_all no_break result"
  shows "list_all no_break (flush_table table_buffer result)"
proof -
  have "\<And>out. out \<in> set (process_table table_buffer) \<Longrightarrow> no_break out"
    using process_table_set[of _ table_buffer] assms(1) format_table_row_no_break
    by (fastforce simp: list_all_iff)
  then show ?thesis using assms(2) by (auto simp: flush_table_def list_all_iff)
qed

lemma block_line_no_break:
  assumes "block_line U line (list_stack, table_buffer, result) = Inr (list_stack', table_buffer', result')"
    and "no_break line" "list_all no_break table_buffer" "list_all no_break result"
  shows "list_all no_break table_buffer' \<and> list_all no_break result'"
proof -
  have L: "no_break (lit ''h0123456789. -bq*#(/)'')" by (simp add: lit_def is_linebreak_def)
  have "\<And>out. set out \<subseteq> set line \<union> set (lit ''h0123456789. -bq*#(/)'') \<Longrightarrow> no_break out"
    using L assms(2) unfolding no_break_def by blast
  then show ?thesis
    using block_line_cases[OF assms(1)] assms(2,3,4) flush_table_no_break[OF assms(3,4)]
    by auto
qed

lemma block_loop_no_break:
  "block_loop U lines (list_stack, table_buffer, result) = Inr (list_stack', table_buffer', result') \<Longrightarrow>
   list_all no_break lines \<Longrightarrow> list_all no_break table_buffer \<Longrightarrow> list_all no_break result \<Longrightarrow>
   list_all no_break table_buffer' \<and> list_all no_break result'"
proof (induction lines arbitrary: list_stack table_buffer result)
  case Nil
  then show ?case by simp
next
  case (Cons l lines)
  from block_line_total[of U l "(list_stack, table_buffer, result)"] obtain s1 b1 r1 where
    st: "block_line U l (list_stack, table_buffer, result) = Inr (s1, b1, r1)"
    by (metis prod_cases3)
  have "list_all no_break b1 \<and> list_all no_break r1"
    using block_line_no_break[OF st] Cons.prems by simp
  then show ?case using Cons.IH[of s1 b1 r1] Cons.prems st by simp
qed

lemma process_block_structure_no_break:
  assumes "process_block_structure U lines = Inr r" "list_all no_break lines"
  shows "list_all no_break r"
proof -
  from assms(1) obtain s b r1 where st: "block_loop U lines ([], [], []) = Inr (s, b, r1)"
    and r: "r = flush_table b r1"
    by (auto simp: process_block_structure_def split: sum.splits)
  have "list_all no_break b \<and> list_all no_break r1"
    using block_loop_no_break[OF st assms(2)] by simp
  then show ?thesis unfolding r using flush_table_no_break by blast
qed

lemma block_loop_append:
  "block_loop U (a @ b) st =
     (case block_loop U a st of Inl e \<Rightarrow> Inl e | Inr st1 \<Rightarrow> block_loop U b st1)"
  by (induction a arbitrary: st) (auto split: sum.splits)

lemma process_table_last:
  assumes "\<not> TABLE_SEP_match x"
  shows "process_table (b @ [x]) \<noteq> [] \<and> last (process_table (b @ [x])) = format_table_row x False"
proof (cases "\<exists>r\<in>set b. TABLE_SEP_match r")
  case False
  then have "\<forall>r\<in>set (b @ [x]). \<not> TABLE_SEP_match r" using assms by auto
  from process_table_no_sep[OF this] show ?thesis by simp
next
  case True
  from split_list_first_prop[OF True] obtain before s after where
    b: "b = before @ s # after" and s: "TABLE_SEP_match s" and bf: "\<forall>r\<in>set before. \<not> TABLE_SEP_match r"
    by blast
  have "process_table (before @ s # (after @ [x])) =
     map (\<lambda>row. format_table_row row True) before @
     map (\<lambda>row. format_table_row row False) (filter (\<lambda>row. \<not> TABLE_SEP_match row) (after @ [x]))"
    by (rule process_table_sep[OF bf s])
  then show ?thesis using assms by (simp add: b)
qed

lemma process_block_structure_last:
  assumes "process_block_structure U lines = Inr r" "lines \<noteq> []" "last lines \<noteq> []"
    and "sublist PH_CB (last lines) \<or> \<not> TABLE_SEP_match (last lines)"
  shows "r \<noteq> [] \<and> last r \<noteq> []"
proof -
  obtain front x where lines: "lines = front @ [x]" using assms(2) by (cases lines rule: rev_cases) auto
  have x: "x \<noteq> []" "sublist PH_CB x \<or> \<not> TABLE_SEP_match x" using assms(3,4) lines by simp_all
  from block_loop_total[of U front "([], [], [])"] obtain s1 b1 r1 where
    f: "block_loop U front ([], [], []) = Inr (s1, b1, r1)" by (metis prod_cases3)
  from block_line_total[of U x "(s1, b1, r1)"] obtain s2 b2 r2 where
    l: "block_line U x (s1, b1, r1) = Inr (s2, b2, r2)" by (metis prod_cases3)
  have "block_loop U lines ([], [], []) = Inr (s2, b2, r2)"
    unfolding lines block_loop_append f by (simp add: l)
  with assms(1) have r: "r = flush_table b2 r2" by (simp add: process_block_structure_def)
  from block_line_cases[OF l] show ?thesis
  proof
    assume a: "\<not> sublist PH_CB x \<and> TABLE_ROW_match x \<and> s2 = s1 \<and> b2 = b1 @ [x] \<and> r2 = r1"
    then have "\<not> TABLE_SEP_match x" using x(2) by blast
    from process_table_last[OF this, of b1] format_table_row_last[of x False]
    show ?thesis unfolding r using a by (simp add: flush_table_def)
  next
    assume "(sublist PH_CB x \<or> \<not> TABLE_ROW_match x) \<and> b2 = [] \<and>
      (\<exists>out. r2 = flush_table b1 r1 @ [out] \<and> (x \<noteq> [] \<longrightarrow> out \<noteq> []) \<and>
         set out \<subseteq> set x \<union> set (lit ''h0123456789. -bq*#(/)''))"
    then show ?thesis unfolding r using x(1) by (auto simp: flush_table_def)
  qed
qed

lemma join_lf_only: "list_all no_break xs \<Longrightarrow> lf_only (join [10] xs)"
  using join_set[of "[10]" xs] by (fastforce simp: lf_only_def no_break_def list_all_iff)

lemma fenced_block_props:
  assumes "no_break lang" "list_all no_break body"
  shows "lf_only (fenced_block lang body) \<and> fenced_block lang body \<noteq> [] \<and>
         last (fenced_block lang body) = 125"
proof -
  have "lf_only (lit ''{code}'')" "lf_only (lit ''{code:language='')" "lf_only (lit ''}'')"
    by (simp_all add: lit_def is_linebreak_def)
  then show ?thesis
    using assms join_lf_only[OF assms(2)] no_break_lf_only[OF assms(1)]
    by (simp add: fenced_block_def) (simp add: lit_def)
qed

lemma block_map_dict_set:
  "block_map m \<Longrightarrow> lf_only v \<and> v \<noteq> [] \<and> last v = 125 \<Longrightarrow> block_map (dict_set m k v)"
  using dict_set_subset[of m k v] by (fastforce simp: block_map_def)

lemma extract_code_blocks_no_break:
  assumes "extract_code_blocks U ls = Inr (ls', code_map)" "list_all no_break ls"
  shows "list_all no_break ls' \<and> block_map code_map"
proof -
  let ?I = "\<lambda>result code_map (counter::nat). list_all no_break result \<and> block_map code_map"
  have "\<exists>result' code_map' counter'.
           extract_loop U ls [] [] 0 = Inr (result', code_map') \<and> ?I result' code_map' counter'"
  proof (rule extract_loop_invariant[of ?I])
    show "?I [] [] 0" by (simp add: block_map_def)
  next
    fix l result code_map counter
    assume "l \<in> set ls" "?I result code_map counter"
    then show "?I (result @ [l]) code_map counter" using assms(2) by (simp add: list_all_iff)
  next
    fix l fc g g2 body result code_map counter
    assume l: "l \<in> set ls" and m: "FENCE_START_match U l = Some (fc # g, g2)"
      and b: "set body \<subseteq> set ls" and I: "?I result code_map counter"
    have "set (strip g2) \<subseteq> set l"
      using FENCE_START_match_group1[OF m] set_strip(1)[of g2] by blast
    then have "no_break (strip g2)" using l assms(2) no_break_subset by (auto simp: list_all_iff)
    moreover have "list_all no_break body" using b assms(2) by (auto simp: list_all_iff)
    ultimately show "?I (result @ [ph PH_CB counter])
        (dict_set code_map (ph PH_CB counter) (fenced_block (strip g2) body)) (counter + 1)"
      using I fenced_block_props block_map_dict_set by simp
  qed
  then show ?thesis using assms(1) by (auto simp: extract_code_blocks_def)
qed

lemma collect_body_suffix: "suffix (snd (collect_body fc ls)) ls"
  by (induction ls) (auto split: prod.splits intro: suffix_ConsI)

lemma extract_loop_last:
  "extract_loop U ls result code_map counter = Inr (r', cm') \<Longrightarrow>
   (ls = [] \<and> r' = result) \<or>
   (ls \<noteq> [] \<and> r' \<noteq> [] \<and>
    (last r' = last ls \<and> FENCE_START_match U (last ls) = None \<or> (\<exists>k. last r' = ph PH_CB k)))"
proof (induction U ls result code_map counter rule: extract_loop.induct)
  case (1 U result code_map counter)
  then show ?case by (simp add: extract_loop.simps)
next
  case (2 U l ls result code_map counter)
  show ?case
  proof (cases "FENCE_START_match U l")
    case None
    then have e: "extract_loop U ls (result @ [l]) code_map counter = Inr (r', cm')"
      using "2.prems" by (simp add: extract_loop.simps)
    from "2.IH"(1)[OF None e] show ?thesis using None by auto
  next
    case (Some p)
    obtain g1 g2 where p: "p = (g1, g2)" by (cases p)
    from FENCE_START_match_group1[of U l g1 g2] Some p
    obtain fc g where g1: "g1 = fc # g" by auto
    let ?rest = "snd (collect_body fc ls)"
    let ?key = "ph PH_CB counter"
    from "2.prems" obtain blk where
      e: "extract_loop U ?rest (result @ [?key]) (dict_set code_map ?key blk) (counter + 1) = Inr (r', cm')"
      using Some p g1 by (simp add: extract_loop.simps Let_def)
    have IH: "(?rest = [] \<and> r' = result @ [?key]) \<or>
       (?rest \<noteq> [] \<and> r' \<noteq> [] \<and>
        (last r' = last ?rest \<and> FENCE_START_match U (last ?rest) = None \<or> (\<exists>k. last r' = ph PH_CB k)))"
      using "2.IH"(2)[OF Some p[symmetric] g1 refl refl refl refl refl refl] e "2.prems" Some p g1
      by (simp add: extract_loop.simps Let_def)
    have "?rest \<noteq> [] \<Longrightarrow> last ?rest = last (l # ls)"
    proof -
      assume ne: "?rest \<noteq> []"
      from collect_body_suffix[of fc ls] obtain zs where zs: "ls = zs @ ?rest" by (auto simp: suffix_def)
      have "last ls = last ?rest" by (subst zs) (simp add: ne)
      moreover have "ls \<noteq> []" using zs ne by auto
      ultimately show ?thesis by simp
    qed
    then show ?thesis using IH by auto
  qed
qed

lemma sublist_PH_CB_key: "sublist PH_CB (ph PH_CB k)"
  by (simp add: ph_def)

lemma extract_code_blocks_last:
  assumes "extract_code_blocks U ls = Inr (ls', code_map)" "ls \<noteq> []" "last ls \<noteq> []"
  shows "ls' \<noteq> [] \<and> last ls' \<noteq> [] \<and> (last ls' = last ls \<or> sublist PH_CB (last ls'))"
  using extract_loop_last[OF assms(1)[unfolded extract_code_blocks_def]] assms(2,3)
    sublist_PH_CB_key ph_nonempty by metis

lemma re_sub_invariant:
  "(\<And>p s g rest. match_at p s = Some (g, rest) \<Longrightarrow> no_break s \<Longrightarrow> G g \<and> no_break rest) \<Longrightarrow>
   (\<And>g st new st'. G g \<Longrightarrow> I st \<Longrightarrow> repl g st = (new, st') \<Longrightarrow>
              no_break new \<and> new \<noteq> [] \<and> I st') \<Longrightarrow>
   no_break s \<Longrightarrow> I st \<Longrightarrow> re_sub match_at repl prev s st = (out, st') \<Longrightarrow>
   no_break out \<and> I st' \<and> (s \<noteq> [] \<longrightarrow> out \<noteq> [])"
proof (induction match_at repl prev s st arbitrary: out st' rule: re_sub.induct)
  case (1 match_at repl prev st)
  then show ?case by simp
next
  case (2 match_at repl prev c cs st)
  have nb: "\<not> is_linebreak c" "no_break cs" using "2.prems"(3) by simp_all
  show ?case
  proof (cases "match_at prev (c # cs)")
    case None
    obtain o1 s1 where rs: "re_sub match_at repl (Some c) cs st = (o1, s1)" by (cases "re_sub match_at repl (Some c) cs st")
    have "no_break o1 \<and> I s1 \<and> (cs \<noteq> [] \<longrightarrow> o1 \<noteq> [])"
      using "2.IH"(1)[OF None "2.prems"(1,2) nb(2) "2.prems"(4) rs] .
    moreover have "out = c # o1" "st' = s1" using "2.prems"(5) None rs by simp_all
    ultimately show ?thesis using nb by simp
  next
    case (Some p)
    obtain g rest where p: "p = (g, rest)" by (cases p)
    show ?thesis
    proof (cases "length rest \<le> length cs")
      case True
      obtain new st1 where rp: "repl g st = (new, st1)" by (cases "repl g st")
      let ?prev = "Some ((c # cs) ! (length cs - length rest))"
      obtain o1 s1 where rs: "re_sub match_at repl ?prev rest st1 = (o1, s1)"
        by (cases "re_sub match_at repl ?prev rest st1")
      have G: "G g \<and> no_break rest" using "2.prems"(1)[of prev "c # cs" g rest] Some p "2.prems"(3) by simp
      have n: "no_break new \<and> new \<noteq> [] \<and> I st1" using "2.prems"(2)[OF _ "2.prems"(4) rp] G by simp
      have "no_break o1 \<and> I s1 \<and> (rest \<noteq> [] \<longrightarrow> o1 \<noteq> [])"
        using "2.IH"(2)[OF Some p[symmetric] True rp[symmetric] "2.prems"(1,2) _ _ rs] G n by simp
      moreover have "out = new @ o1" "st' = s1" using "2.prems"(5) Some p True rp rs by simp_all
      ultimately show ?thesis using n by simp
    next
      case False
      obtain o1 s1 where rs: "re_sub match_at repl (Some c) cs st = (o1, s1)" by (cases "re_sub match_at repl (Some c) cs st")
      have "no_break o1 \<and> I s1 \<and> (cs \<noteq> [] \<longrightarrow> o1 \<noteq> [])"
        using "2.IH"(3)[OF Some p[symmetric] False "2.prems"(1,2) nb(2) "2.prems"(4) rs] .
      moreover have "out = c # o1" "st' = s1" using "2.prems"(5) Some p False rs by simp_all
      ultimately show ?thesis using nb by simp
    qed
  qed
qed

lemma INLINE_CODE_groups:
  "INLINE_CODE_match_at p s = Some (g, rest) \<Longrightarrow> set g \<subseteq> set s \<and> set rest \<subseteq> set s \<and> g \<noteq> []"
proof -
  assume h: "INLINE_CODE_match_at p s = Some (g, rest)"
  then obtain cs where s: "s = 96 # cs" and g: "g = takeWhile (\<lambda>x. x \<noteq> 96) cs"
    and r: "rest = tl (dropWhile (\<lambda>x. x \<noteq> 96) cs)" and ne: "g \<noteq> []"
    by (cases s) (auto simp: INLINE_CODE_match_at_def split: if_splits)
  have "set g \<subseteq> set cs" unfolding g by (meson set_takeWhileD subsetI)
  moreover have "set rest \<subseteq> set cs" unfolding r
    by (metis (no_types, lifting) list.set_sel(2) set_dropWhileD subsetI tl_Nil)
  ultimately show ?thesis using s ne by auto
qed

lemma LINK_groups:
  "LINK_match_at p s = Some ((a, b), rest) \<Longrightarrow> set a \<subseteq> set s \<and> set b \<subseteq> set s \<and> set rest \<subseteq> set s"
proof -
  assume h: "LINK_match_at p s = Some ((a, b), rest)"
  then obtain cs x y after where s: "s = 91 # cs" and d: "dropWhile (\<lambda>x. x \<noteq> 93) cs = x # y # after"
    and a: "a = takeWhile (\<lambda>x. x \<noteq> 93) cs" and b: "b = takeWhile (\<lambda>x. x \<noteq> 41) after"
    and r: "rest = tl (dropWhile (\<lambda>x. x \<noteq> 41) after)"
    by (cases s) (auto simp: LINK_match_at_def split: if_splits list.splits)
  have "set after \<subseteq> set (dropWhile (\<lambda>x. x \<noteq> 93) cs)" unfolding d by auto
  also have "\<dots> \<subseteq> set cs" by (meson set_dropWhileD subsetI)
  finally have af: "set after \<subseteq> set cs" .
  have "set a \<subseteq> set cs" unfolding a by (meson set_takeWhileD subsetI)
  moreover have "set b \<subseteq> set after" unfolding b by (meson set_takeWhileD subsetI)
  moreover have "set rest \<subseteq> set after" unfolding r
    by (metis (no_types, lifting) list.set_sel(2) set_dropWhileD subsetI tl_Nil)
  ultimately show ?thesis using s af by auto
qed

lemma IMAGE_groups:
  "IMAGE_match_at p s = Some ((a, b), rest) \<Longrightarrow> set a \<subseteq> set s \<and> set b \<subseteq> set s \<and> set rest \<subseteq> set s"
  using LINK_groups[of "Some 33" "tl s" a b rest]
  by (cases s) (auto simp: IMAGE_match_at_def split: if_splits)

lemma lazy_until_groups:
  "lazy_until d s = Some (t, rest) \<Longrightarrow> set t \<subseteq> set s \<and> set rest \<subseteq> set s \<and> t \<noteq> []"
proof (induction d s arbitrary: t rule: lazy_until.induct)
  case (1 d)
  then show ?case by simp
next
  case (2 d c cs)
  show ?case
  proof (cases "prefix d cs")
    case True
    then have "t = [c]" "rest = drop (length d) cs" using "2.prems" by (auto split: if_splits)
    then show ?thesis using set_drop_subset[of "length d" cs] by auto
  next
    case False
    then obtain t' where "lazy_until d cs = Some (t', rest)" "t = c # t'" "c \<noteq> 10"
      using "2.prems" by (auto split: if_splits option.splits)
    then show ?thesis using "2.IH"[of t'] False by auto
  qed
qed

lemma delimited_groups:
  "delimited_match_at n p s = Some ((d, t), rest) \<Longrightarrow> set t \<subseteq> set s \<and> set rest \<subseteq> set s \<and> t \<noteq> []"
proof -
  assume h: "delimited_match_at n p s = Some ((d, t), rest)"
  then obtain dd where "lazy_until dd (drop n s) = Some (t, rest)"
    by (auto simp: delimited_match_at_def split: if_splits option.splits)
  from lazy_until_groups[OF this] show ?thesis using set_drop_subset[of n s] by auto
qed

lemma STRIKE_groups:
  "STRIKE_match_at p s = Some (t, rest) \<Longrightarrow> set t \<subseteq> set s \<and> set rest \<subseteq> set s \<and> t \<noteq> []"
proof -
  assume h: "STRIKE_match_at p s = Some (t, rest)"
  then have "lazy_until [126, 126] (drop 2 s) = Some (t, rest)"
    by (auto simp: STRIKE_match_at_def split: if_splits)
  from lazy_until_groups[OF this] show ?thesis using set_drop_subset[of 2 s] by auto
qed

lemma italic_close_groups:
  "italic_close d s = Some (t, rest) \<Longrightarrow> set t \<subseteq> set s \<and> set rest \<subseteq> set s \<and> t \<noteq> []"
proof (induction d s arbitrary: t rule: italic_close.induct)
  case (1 d)
  then show ?case by simp
next
  case (2 d c)
  then show ?case by simp
next
  case (3 d c e es)
  show ?case
  proof (cases "c \<noteq> d \<and> e = d \<and> \<not> prefix [d] es")
    case True
    then have "t = [c]" "rest = es" using "3.prems" by (auto split: if_splits)
    then show ?thesis by auto
  next
    case False
    then obtain t' where "italic_close d (e # es) = Some (t', rest)" "t = c # t'" "c \<noteq> 10"
      using "3.prems" by (auto split: if_splits option.splits)
    then show ?thesis using "3.IH"[of t'] False by auto
  qed
qed

lemma ITALIC_groups:
  "ITALIC_match_at p s = Some ((a, b), rest) \<Longrightarrow>
   (\<exists>t. (a = Some t \<and> b = None \<or> a = None \<and> b = Some t) \<and> set t \<subseteq> set s \<and> t \<noteq> []) \<and>
   set rest \<subseteq> set s"
proof -
  assume h: "ITALIC_match_at p s = Some ((a, b), rest)"
  then obtain c cs d t where s: "s = c # cs" and ic: "italic_close d cs = Some (t, rest)"
    and ab: "a = Some t \<and> b = None \<or> a = None \<and> b = Some t"
    by (cases s) (auto simp: ITALIC_match_at_def split: if_splits option.splits)
  from italic_close_groups[OF ic] show ?thesis using s ab by auto
qed

lemma replacer_good:
  assumes "no_break g" "good_map (snd st)" "replacer g st = (new, st')"
  shows "no_break new \<and> new \<noteq> [] \<and> good_map (snd st')"
proof -
  obtain n m where st: "st = (n, m)" by (cases st)
  let ?c = "if 123 \<in> set g \<or> 125 \<in> set g
            then replace [125] (lit ''&#125;'') (replace [123] (lit ''&#123;'') g) else g"
  have "set ?c \<subseteq> set g \<union> set (lit ''&#123;'') \<union> set (lit ''&#125;'')"
    using replace_set[of "[125]" "lit ''&#125;''" "replace [123] (lit ''&#123;'') g"]
      replace_set[of "[123]" "lit ''&#123;''" g] by auto
  moreover have "no_break (lit ''&#123;'')" "no_break (lit ''&#125;'')"
    by (simp_all add: lit_def is_linebreak_def)
  ultimately have "no_break ?c" using assms(1) unfolding no_break_def by blast
  then have v: "no_break (lit ''{{'' @ ?c @ lit ''}}'')" "lit ''{{'' @ ?c @ lit ''}}'' \<noteq> []"
    by (simp_all add: lit_def is_linebreak_def)
  have "new = ph PH_IC n" "snd st' = dict_set m (ph PH_IC n) (lit ''{{'' @ ?c @ lit ''}}'')"
    using assms(3) by (auto simp: replacer_def st Let_def)
  then show ?thesis using v assms(2) good_map_dict_set[of m] by (simp add: st)
qed

lemma img_replacer_good:
  assumes "no_break (snd g)" "good_map (snd st)" "img_replacer g st = (new, st')"
  shows "no_break new \<and> new \<noteq> [] \<and> good_map (snd st')"
proof -
  obtain n m where st: "st = (n, m)" by (cases st)
  have v: "no_break (lit ''!'' @ snd g @ lit ''!'')" "lit ''!'' @ snd g @ lit ''!'' \<noteq> []"
    using assms(1) by (simp_all add: lit_def is_linebreak_def)
  have "new = ph PH_LK n" "snd st' = dict_set m (ph PH_LK n) (lit ''!'' @ snd g @ lit ''!'')"
    using assms(3) by (auto simp: img_replacer_def st Let_def)
  then show ?thesis using v assms(2) good_map_dict_set[of m] by (simp add: st)
qed

lemma link_replacer_good:
  assumes "no_break (fst g) \<and> no_break (snd g)" "good_map (snd st)" "link_replacer g st = (new, st')"
  shows "no_break new \<and> new \<noteq> [] \<and> good_map (snd st')"
proof -
  obtain n m where st: "st = (n, m)" by (cases st)
  let ?v = "lit ''['' @ fst g @ lit ''|'' @ snd g @ lit '']''"
  have v: "no_break ?v" "?v \<noteq> []"
    using assms(1) by (simp_all add: lit_def is_linebreak_def)
  have "new = ph PH_LK n" "snd st' = dict_set m (ph PH_LK n) ?v"
    using assms(3) by (auto simp: link_replacer_def st Let_def)
  then show ?thesis using v assms(2) good_map_dict_set[of m] by (simp add: st)
qed

lemma store_bold_good:
  assumes "no_break wiki" "wiki \<noteq> []" "good_map (snd st)" "store_bold wiki st = (new, st')"
  shows "no_break new \<and> new \<noteq> [] \<and> good_map (snd st')"
proof -
  obtain n m where st: "st = (n, m)" by (cases st)
  have "new = ph PH_BD n" "snd st' = dict_set m (ph PH_BD n) wiki"
    using assms(4) by (auto simp: store_bold_def st Let_def)
  then show ?thesis using assms(1,2,3) good_map_dict_set[of m] by (simp add: st)
qed

lemma extract_inline_code_good:
  assumes "extract_inline_code l m = (l', m')" "no_break l" "good_map m"
  shows "no_break l' \<and> good_map m' \<and> (l \<noteq> [] \<longrightarrow> l' \<noteq> [])"
proof -
  obtain st' where rs: "re_sub INLINE_CODE_match_at replacer None l (length m, m) = (l', st')"
    and m': "m' = snd st'"
    using assms(1) by (auto simp: extract_inline_code_def split: prod.splits)
  have "no_break l' \<and> good_map (snd st') \<and> (l \<noteq> [] \<longrightarrow> l' \<noteq> [])"
  proof (rule re_sub_invariant[where G=no_break and I="\<lambda>st. good_map (snd st)", OF _ _ assms(2) _ rs])
    fix p s g rest assume "INLINE_CODE_match_at p s = Some (g, rest)" "no_break s"
    then show "no_break g \<and> no_break rest"
      using INLINE_CODE_groups[of p s g rest] no_break_subset by blast
  next
    fix g st new st' assume "no_break g" "good_map (snd st)" "replacer g st = (new, st')"
    then show "no_break new \<and> new \<noteq> [] \<and> good_map (snd st')" by (rule replacer_good)
  next
    show "good_map (snd (length m, m))" using assms(3) by simp
  qed
  then show ?thesis by (simp add: m')
qed

lemma extract_links_good:
  assumes "extract_links l m = (l', m')" "no_break l" "good_map m"
  shows "no_break l' \<and> good_map m' \<and> (l \<noteq> [] \<longrightarrow> l' \<noteq> [])"
proof -
  obtain l1 st1 where r1: "re_sub IMAGE_match_at img_replacer None l (length m, m) = (l1, st1)"
    by (cases "re_sub IMAGE_match_at img_replacer None l (length m, m)")
  obtain st2 where r2: "re_sub LINK_match_at link_replacer None l1 st1 = (l', st2)" and m': "m' = snd st2"
    using assms(1) r1 by (auto simp: extract_links_def split: prod.splits)
  have a: "no_break l1 \<and> good_map (snd st1) \<and> (l \<noteq> [] \<longrightarrow> l1 \<noteq> [])"
  proof (rule re_sub_invariant[where G="\<lambda>g. no_break (snd g)" and I="\<lambda>st. good_map (snd st)",
        OF _ _ assms(2) _ r1])
    fix p s g rest assume "IMAGE_match_at p s = Some (g, rest)" "no_break s"
    then show "no_break (snd g) \<and> no_break rest"
      using IMAGE_groups[of p s "fst g" "snd g" rest] no_break_subset by auto
  next
    fix g st new st' assume "no_break (snd g)" "good_map (snd st)" "img_replacer g st = (new, st')"
    then show "no_break new \<and> new \<noteq> [] \<and> good_map (snd st')" by (rule img_replacer_good)
  next
    show "good_map (snd (length m, m))" using assms(3) by simp
  qed
  have "no_break l' \<and> good_map (snd st2) \<and> (l1 \<noteq> [] \<longrightarrow> l' \<noteq> [])"
  proof (rule re_sub_invariant[where G="\<lambda>g. no_break (fst g) \<and> no_break (snd g)"
        and I="\<lambda>st. good_map (snd st)", OF _ _ _ _ r2])
    fix p s g rest assume "LINK_match_at p s = Some (g, rest)" "no_break s"
    then show "(no_break (fst g) \<and> no_break (snd g)) \<and> no_break rest"
      using LINK_groups[of p s "fst g" "snd g" rest] no_break_subset by auto
  next
    fix g st new st'
    assume "no_break (fst g) \<and> no_break (snd g)" "good_map (snd st)" "link_replacer g st = (new, st')"
    then show "no_break new \<and> new \<noteq> [] \<and> good_map (snd st')" by (rule link_replacer_good)
  qed (use a in auto)
  then show ?thesis using a by (simp add: m')
qed

lemma process_inline_formatting_good:
  assumes "no_break l"
  shows "no_break (process_inline_formatting l) \<and> (l \<noteq> [] \<longrightarrow> process_inline_formatting l \<noteq> [])"
proof -
  let ?r1 = "\<lambda>g. store_bold (lit ''*_'' @ snd g @ lit ''_*'')"
  let ?r2 = "\<lambda>g. store_bold (lit ''*'' @ snd g @ lit ''*'')"
  let ?r4 = "\<lambda>g (u::unit). (lit ''-'' @ g @ lit ''-'', u)"
  obtain l1 st1 where r1: "re_sub BOLD_ITALIC_match_at ?r1 None l (0, []) = (l1, st1)"
    by (cases "re_sub BOLD_ITALIC_match_at ?r1 None l (0, [])")
  obtain l2 st2 where r2: "re_sub BOLD_match_at ?r2 None l1 st1 = (l2, st2)"
    by (cases "re_sub BOLD_match_at ?r2 None l1 st1")
  obtain l3 u3 where r3: "re_sub ITALIC_match_at italic_repl None l2 () = (l3, u3)"
    by (cases "re_sub ITALIC_match_at italic_repl None l2 ()")
  obtain l4 u4 where r4: "re_sub STRIKE_match_at ?r4 None l3 () = (l4, u4)"
    by (cases "re_sub STRIKE_match_at ?r4 None l3 ()")
  have pif: "process_inline_formatting l = restore_placeholders l4 (snd st2)"
    by (simp add: process_inline_formatting_def r1 r2 r3 r4 Let_def split: prod.splits)
  have a1: "no_break l1 \<and> good_map (snd st1) \<and> (l \<noteq> [] \<longrightarrow> l1 \<noteq> [])"
  proof (rule re_sub_invariant[where G="\<lambda>g. no_break (snd g)" and I="\<lambda>st. good_map (snd st)",
        OF _ _ assms _ r1])
    fix p s g rest assume "BOLD_ITALIC_match_at p s = Some (g, rest)" "no_break s"
    then show "no_break (snd g) \<and> no_break rest"
      using delimited_groups[of 3 p s "fst g" "snd g" rest] no_break_subset
      by (auto simp: BOLD_ITALIC_match_at_def)
  next
    fix g st new st'
    assume g: "no_break (snd g)" and "good_map (snd st)"
      "store_bold (lit ''*_'' @ snd g @ lit ''_*'') st = (new, st')"
    then show "no_break new \<and> new \<noteq> [] \<and> good_map (snd st')"
      by (intro store_bold_good[of "lit ''*_'' @ snd g @ lit ''_*''" st new st'])
         (simp_all add: lit_def is_linebreak_def)
  next
    show "good_map (snd (0::nat, []))" by (simp add: good_map_def)
  qed
  have a2: "no_break l2 \<and> good_map (snd st2) \<and> (l1 \<noteq> [] \<longrightarrow> l2 \<noteq> [])"
  proof (rule re_sub_invariant[where G="\<lambda>g. no_break (snd g)" and I="\<lambda>st. good_map (snd st)",
        OF _ _ _ _ r2])
    fix p s g rest assume "BOLD_match_at p s = Some (g, rest)" "no_break s"
    then show "no_break (snd g) \<and> no_break rest"
      using delimited_groups[of 2 p s "fst g" "snd g" rest] no_break_subset
      by (auto simp: BOLD_match_at_def)
  next
    fix g st new st'
    assume g: "no_break (snd g)" and "good_map (snd st)"
      "store_bold (lit ''*'' @ snd g @ lit ''*'') st = (new, st')"
    then show "no_break new \<and> new \<noteq> [] \<and> good_map (snd st')"
      by (intro store_bold_good[of "lit ''*'' @ snd g @ lit ''*''" st new st'])
         (simp_all add: lit_def is_linebreak_def)
  qed (use a1 in auto)
  have a3: "no_break l3 \<and> True \<and> (l2 \<noteq> [] \<longrightarrow> l3 \<noteq> [])"
  proof (rule re_sub_invariant[where G="\<lambda>g. \<exists>t. (fst g = Some t \<and> snd g = None \<or> fst g = None \<and> snd g = Some t) \<and> no_break t"
        and I="\<lambda>st. True", OF _ _ _ _ r3])
    fix p s g rest assume "ITALIC_match_at p s = Some (g, rest)" "no_break s"
    then show "(\<exists>t. (fst g = Some t \<and> snd g = None \<or> fst g = None \<and> snd g = Some t) \<and> no_break t) \<and>
        no_break rest"
      using ITALIC_groups[of p s "fst g" "snd g" rest] no_break_subset by (simp, blast)
  next
    fix g and st :: unit and new st'
    assume "\<exists>t. (fst g = Some t \<and> snd g = None \<or> fst g = None \<and> snd g = Some t) \<and> no_break t"
      "italic_repl g st = (new, st')"
    then show "no_break new \<and> new \<noteq> [] \<and> True"
      by (auto simp: italic_repl_def Let_def lit_def is_linebreak_def split: option.splits)
  qed (use a2 in auto)
  have a4: "no_break l4 \<and> True \<and> (l3 \<noteq> [] \<longrightarrow> l4 \<noteq> [])"
  proof (rule re_sub_invariant[where G=no_break and I="\<lambda>st. True", OF _ _ _ _ r4])
    fix p s g rest assume "STRIKE_match_at p s = Some (g, rest)" "no_break s"
    then show "no_break g \<and> no_break rest"
      using STRIKE_groups[of p s g rest] no_break_subset by auto
  next
    fix g and st :: unit and new st'
    assume "no_break g" "(lit ''-'' @ g @ lit ''-'', st) = (new, st')"
    then show "no_break new \<and> new \<noteq> [] \<and> True"
      by (auto simp: lit_def is_linebreak_def)
  qed (use a3 in auto)
  show ?thesis
    unfolding pif using a1 a2 a3 a4 restore_good[of "snd st2" l4] restore_nonempty[of "snd st2" l4]
    by auto
qed

lemma inline_line_good:
  assumes "inline_line l (res, im, lm) = (res', im', lm')" "no_break l" "good_map im" "good_map lm"
  shows "good_map im' \<and> good_map lm' \<and>
         (\<exists>out. res' = res @ [out] \<and> no_break out \<and> (l \<noteq> [] \<longrightarrow> out \<noteq> []))"
proof (cases "sublist PH_CB l")
  case True
  then show ?thesis using assms by (auto simp: inline_line_def)
next
  case False
  obtain l1 im1 where e1: "extract_inline_code l im = (l1, im1)" by (cases "extract_inline_code l im")
  obtain l2 lm1 where e2: "extract_links l1 lm = (l2, lm1)" by (cases "extract_links l1 lm")
  let ?l3 = "process_inline_formatting l2"
  let ?l4 = "restore_placeholders ?l3 lm1"
  let ?l5 = "restore_placeholders ?l4 im1"
  have r: "res' = res @ [?l5]" "im' = im1" "lm' = lm1"
    using assms(1) False by (auto simp: inline_line_def e1 e2 Let_def)
  have a1: "no_break l1 \<and> good_map im1 \<and> (l \<noteq> [] \<longrightarrow> l1 \<noteq> [])"
    using extract_inline_code_good[OF e1 assms(2,3)] .
  have a2: "no_break l2 \<and> good_map lm1 \<and> (l1 \<noteq> [] \<longrightarrow> l2 \<noteq> [])"
    using extract_links_good[OF e2 _ assms(4)] a1 by simp
  have a3: "no_break ?l3 \<and> (l2 \<noteq> [] \<longrightarrow> ?l3 \<noteq> [])"
    using process_inline_formatting_good[of l2] a2 by simp
  have a4: "no_break ?l4 \<and> (?l3 \<noteq> [] \<longrightarrow> ?l4 \<noteq> [])"
    using restore_good[of lm1 ?l3] restore_nonempty[of lm1 ?l3] a2 a3 by simp
  have a5: "no_break ?l5 \<and> (?l4 \<noteq> [] \<longrightarrow> ?l5 \<noteq> [])"
    using restore_good[of im1 ?l4] restore_nonempty[of im1 ?l4] a1 a4 by simp
  show ?thesis unfolding r using a1 a2 a3 a4 a5 by simp
qed

lemma inline_loop_snoc: "inline_loop (ls @ [l]) st = inline_line l (inline_loop ls st)"
  by (simp add: inline_loop_def)

lemma inline_loop_good:
  "inline_loop ls (res, im, lm) = (res', im', lm') \<Longrightarrow> list_all no_break ls \<Longrightarrow>
   list_all no_break res \<Longrightarrow> good_map im \<Longrightarrow> good_map lm \<Longrightarrow>
   list_all no_break res' \<and> good_map im' \<and> good_map lm' \<and>
   (ls \<noteq> [] \<and> last ls \<noteq> [] \<longrightarrow> res' \<noteq> [] \<and> last res' \<noteq> [])"
proof (induction ls arbitrary: res' im' lm' rule: rev_induct)
  case Nil
  then show ?case by (simp add: inline_loop_def)
next
  case (snoc l ls)
  obtain r1 i1 m1 where st: "inline_loop ls (res, im, lm) = (r1, i1, m1)"
    by (metis prod_cases3)
  have g1: "list_all no_break r1 \<and> good_map i1 \<and> good_map m1"
    using snoc.IH[OF st] snoc.prems by simp
  have il: "inline_line l (r1, i1, m1) = (res', im', lm')"
    using snoc.prems(1) st by (simp add: inline_loop_snoc)
  from inline_line_good[OF il] snoc.prems(2) g1
  show ?case by auto
qed

lemma join_last:
  "xs \<noteq> [] \<Longrightarrow> last xs \<noteq> [] \<Longrightarrow> join sep xs \<noteq> [] \<and> last (join sep xs) = last (last xs)"
  by (induction sep xs rule: join.induct) auto

lemma replace_from_last:
  "t \<noteq> [] \<Longrightarrow> new \<noteq> [] \<Longrightarrow>
   replace_from old new t \<noteq> [] \<and>
   (last (replace_from old new t) = last t \<or> last (replace_from old new t) = last new)"
proof (induction old new t rule: replace_from.induct)
  case (1 old new)
  then show ?case by simp
next
  case (2 old new c cs)
  show ?case
  proof (cases "prefix old (c # cs)")
    case True
    let ?rest = "drop (length old - 1) cs"
    show ?thesis
    proof (cases "?rest = []")
      case e: True
      then show ?thesis using True "2.prems" by simp
    next
      case ne: False
      have "last ?rest = last (c # cs)" using ne by (auto simp: last_drop)
      then show ?thesis using "2.IH"(1)[OF True ne "2.prems"(2)] True "2.prems"(2) by simp
    qed
  next
    case False
    show ?thesis
    proof (cases "cs = []")
      case True
      then show ?thesis using False by simp
    next
      case ne: False
      then show ?thesis using "2.IH"(2)[OF False ne "2.prems"(2)] False by simp
    qed
  qed
qed

lemma restore_block_map_last:
  "block_map m \<Longrightarrow> t \<noteq> [] \<Longrightarrow> last t \<noteq> 10 \<Longrightarrow>
   restore_placeholders t m \<noteq> [] \<and> last (restore_placeholders t m) \<noteq> 10"
  unfolding restore_placeholders_def
proof (induction m arbitrary: t)
  case Nil
  then show ?case by simp
next
  case (Cons kv m)
  obtain k v where kv: "kv = (k, v)" by (cases kv)
  have v: "v \<noteq> []" "last v = 125" and m: "block_map m"
    using Cons.prems(1) by (auto simp: block_map_def kv)
  have "replace k v t \<noteq> [] \<and> last (replace k v t) \<noteq> 10"
  proof (cases "k = []")
    case True
    then have "replace k v t = v @ concat (map (\<lambda>c. c # v) t)" by (simp add: replace_def)
    moreover obtain ts x where "t = ts @ [x]" using Cons.prems(2) by (cases t rule: rev_cases) auto
    ultimately show ?thesis using v by simp
  next
    case False
    then show ?thesis
      using replace_from_last[OF Cons.prems(2) v(1), of k] Cons.prems(3) v(2)
      by (auto simp: replace_def)
  qed
  then show ?case using Cons.IH[OF m, of "replace k v t"] by (simp add: kv)
qed

lemma restore_lf_only:
  assumes "block_map m" "lf_only t"
  shows "lf_only (restore_placeholders t m)"
  using restore_set[of t m] assms by (fastforce simp: block_map_def lf_only_def)

lemma splitlines_from_last:
  "s \<noteq> [] \<Longrightarrow> \<not> is_linebreak (last s) \<Longrightarrow>
   splitlines_from cur s \<noteq> [] \<and> last (splitlines_from cur s) \<noteq> []"
proof (induction cur s rule: splitlines_from.induct)
  case (1 cur)
  then show ?case by simp
next
  case (2 cur c)
  then show ?case by simp
next
  case (3 cur c d cs)
  have l: "last (c # d # cs) = last (d # cs)" by simp
  show ?case
  proof (cases "c = 13 \<and> d = 10")
    case True
    have "cs \<noteq> []" using "3.prems"(2) True by (auto simp: is_linebreak_def)
    then show ?thesis using "3.IH"(1)[OF True] "3.prems"(2) True by simp
  next
    case False
    show ?thesis
    proof (cases "is_linebreak c")
      case True
      then show ?thesis using "3.IH"(2)[OF False True] "3.prems"(2) False by auto
    next
      case nb: False
      then show ?thesis using "3.IH"(3)[OF False nb] "3.prems"(2) False by auto
    qed
  qed
qed

text \<open>The converter in one equation, with what is known of the lines and of the blocks.\<close>

lemma convert_shape:
  "\<exists>result_lines code_map.
     convert U s = Inr (restore_placeholders (join [10] result_lines) code_map @
                        (if suffix [10] s then [10] else [])) \<and>
     list_all no_break result_lines \<and> block_map code_map \<and>
     (s \<noteq> [] \<and> \<not> is_linebreak (last s) \<and> \<not> TABLE_SEP_match (last (splitlines s)) \<longrightarrow>
        result_lines \<noteq> [] \<and> last result_lines \<noteq> [])"
proof -
  let ?ls = "splitlines s"
  have nb0: "list_all no_break ?ls" using splitlines_no_break by (auto simp: list_all_iff)
  from extract_code_blocks_total[of U ?ls] obtain ls1 cm where
    e: "extract_code_blocks U ?ls = Inr (ls1, cm)" by auto
  have nb1: "list_all no_break ls1" and bm: "block_map cm"
    using extract_code_blocks_no_break[OF e nb0] by simp_all
  from process_block_structure_total[of U ls1] obtain ls2 where
    p: "process_block_structure U ls1 = Inr ls2" by blast
  have nb2: "list_all no_break ls2" using process_block_structure_no_break[OF p nb1] .
  obtain res im lm where i: "inline_loop ls2 ([], [], []) = (res, im, lm)" by (metis prod_cases3)
  have g: "list_all no_break res \<and> good_map im \<and> good_map lm \<and>
      (ls2 \<noteq> [] \<and> last ls2 \<noteq> [] \<longrightarrow> res \<noteq> [] \<and> last res \<noteq> [])"
    using inline_loop_good[OF i nb2] by (simp add: good_map_def)
  have c: "convert U s = Inr (restore_placeholders (join [10] res) cm @
                        (if suffix [10] s then [10] else []))"
    by (simp add: convert_def Let_def e p i)
  have "s \<noteq> [] \<and> \<not> is_linebreak (last s) \<and> \<not> TABLE_SEP_match (last ?ls) \<longrightarrow>
        res \<noteq> [] \<and> last res \<noteq> []"
  proof
    assume h: "s \<noteq> [] \<and> \<not> is_linebreak (last s) \<and> \<not> TABLE_SEP_match (last ?ls)"
    have l0: "?ls \<noteq> [] \<and> last ?ls \<noteq> []"
      using splitlines_from_last[of s "[]"] h by (simp add: splitlines_def)
    have l1: "ls1 \<noteq> [] \<and> last ls1 \<noteq> [] \<and> (last ls1 = last ?ls \<or> sublist PH_CB (last ls1))"
      using extract_code_blocks_last[OF e] l0 by simp
    then have "sublist PH_CB (last ls1) \<or> \<not> TABLE_SEP_match (last ls1)" using h by auto
    then have "ls2 \<noteq> [] \<and> last ls2 \<noteq> []"
      using process_block_structure_last[OF p] l1 by simp
    then show "res \<noteq> [] \<and> last res \<noteq> []" using g by simp
  qed
  then show ?thesis using c g bm by blast
qed

lemma inline_line_untouched:
  assumes "sublist PH_CB l \<or> set l \<inter> {96, 91, 42, 95, 126} = {}"
  shows "inline_line l (result_lines, [], []) = (result_lines @ [l], [], [])"
proof (cases "sublist PH_CB l")
  case True
  then show ?thesis by (simp add: inline_line_def)
next
  case False
  with assms have "set l \<inter> {96, 91, 42, 95, 126} = {}" by simp
  from no_inline_pattern[OF this, of None] False show ?thesis
    by (simp add: inline_line_def extract_inline_code_plain extract_links_plain
        process_inline_formatting_plain)
qed

lemma inline_loop_untouched:
  "\<forall>l\<in>set ls. sublist PH_CB l \<or> set l \<inter> {96, 91, 42, 95, 126} = {} \<Longrightarrow>
   inline_loop ls (result_lines, [], []) = (result_lines @ ls, [], [])"
  unfolding inline_loop_def
  by (induction ls arbitrary: result_lines) (simp_all add: inline_line_untouched)

lemma convert_without_inline:
  assumes "extract_code_blocks U (splitlines s) = Inr (ls1, code_map)"
    and "process_block_structure U ls1 = Inr ls2"
    and "\<forall>l\<in>set ls2. sublist PH_CB l \<or> set l \<inter> {96, 91, 42, 95, 126} = {}"
  shows "convert U s = Inr (restore_placeholders (join [10] ls2) code_map @
                            (if suffix [10] s then [10] else []))"
  using inline_loop_untouched[OF assms(3), of "[]"]
  by (simp add: convert_def Let_def assms(1,2))

lemmas block_eval_defs =
  splitlines_def extract_code_blocks_def extract_loop.simps process_block_structure_def
  flush_table_def block_line_def
  FENCE_START_match_def fence_close_match_def TABLE_ROW_match_def TABLE_SEP_match_def piped_def
  HEADING_match_def HR_match_def BLOCKQUOTE_match_def UL_ITEM_match_def OL_ITEM_match_def
  is_space_def is_digit_def is_word_def suffix_single is_linebreak_def
  process_table_def format_table_row_def at_dollar_def
  strip_def lstrip_def rstrip_def Let_def lit_def restore_placeholders_def replace_def
  ph_def PH_CB_def PH_END_def str_nat.simps sublist_Cons_right

text \<open>
  Claim C10. The output is made of lines that hold no line boundary, joined by line
  feeds, with the placeholders of the fenced blocks replaced by blocks whose only line
  boundaries are line feeds, and one more line feed when the input ends with one. So
  every line boundary character of the output is a line feed: carriage returns and the
  other boundaries that \<open>splitlines\<close> recognises do not reach it.
\<close>

theorem output_breaks_are_line_feeds:
  "\<exists>out result_lines code_map.
     convert U s = Inr out \<and>
     out = restore_placeholders (join [10] result_lines) code_map @
           (if suffix [10] s then [10] else []) \<and>
     list_all no_break result_lines \<and> block_map code_map \<and> lf_only out"
proof -
  from convert_shape[of U s] obtain res cm where
    c: "convert U s = Inr (restore_placeholders (join [10] res) cm @ (if suffix [10] s then [10] else []))"
    and nb: "list_all no_break res" and bm: "block_map cm" by blast
  have "lf_only (restore_placeholders (join [10] res) cm)"
    using restore_lf_only[OF bm join_lf_only[OF nb]] .
  then have "lf_only (restore_placeholders (join [10] res) cm @ (if suffix [10] s then [10] else []))"
    by simp
  then show ?thesis using c nb bm by blast
qed

theorem output_breaks_are_line_feeds_witness:
  "convert ascii_only (lit ''a'' @ [13] @ lit ''```'' @ [13, 10] @ lit ''x'' @ [11] @ lit ''y'' @ [13, 10] @
      lit ''```'' @ [13, 10]) =
     Inr (lit ''a\<newline>{code}\<newline>x\<newline>y\<newline>{code}\<newline>'') \<and>
   lf_only (lit ''a\<newline>{code}\<newline>x\<newline>y\<newline>{code}\<newline>'')"
proof -
  let ?s = "lit ''a'' @ [13] @ lit ''```'' @ [13, 10] @ lit ''x'' @ [11] @ lit ''y'' @ [13, 10] @
      lit ''```'' @ [13, 10]"
  have e1: "extract_code_blocks ascii_only (splitlines ?s) =
      Inr ([lit ''a'', ph PH_CB 0], [(ph PH_CB 0, lit ''{code}\<newline>x\<newline>y\<newline>{code}'')])"
    by (simp add: block_eval_defs)
  have e2: "process_block_structure ascii_only [lit ''a'', ph PH_CB 0] = Inr [lit ''a'', ph PH_CB 0]"
    by (simp add: block_eval_defs)
  have e3: "\<forall>l\<in>set [lit ''a'', ph PH_CB 0]. sublist PH_CB l \<or> set l \<inter> {96, 91, 42, 95, 126} = {}"
    by (simp add: sublist_PH_CB_key lit_def)
  have e: "convert ascii_only ?s = Inr (lit ''a\<newline>{code}\<newline>x\<newline>y\<newline>{code}\<newline>'')"
    unfolding convert_without_inline[OF e1 e2 e3] by (simp add: block_eval_defs)
  from output_breaks_are_line_feeds[of ascii_only ?s] obtain out where
    "convert ascii_only ?s = Inr out" "lf_only out" by blast
  with e show ?thesis by simp
qed

text \<open>
  Claim C3. The converter records whether the input ends with a line feed, and appends
  one to the joined lines in that case only. A table that is only a separator row writes
  no line: in \<open>a\n\n|---|\<close> the empty line before the table is then the last line, the
  joined lines end with the line feed that separates it from the line before it, and the
  output ends with a line feed although the input does not.
\<close>

theorem trailing_newline_gained:
  "convert ascii_only (lit ''a\<newline>\<newline>|---|'') = Inr (lit ''a\<newline>'') \<and>
   \<not> suffix [10] (lit ''a\<newline>\<newline>|---|'') \<and> suffix [10] (lit ''a\<newline>'') \<and>
   \<not> is_linebreak (last (lit ''a\<newline>\<newline>|---|'')) \<and> is_linebreak (last (lit ''a\<newline>''))"
proof -
  have x1: "extract_code_blocks ascii_only (splitlines (lit ''a\<newline>\<newline>|---|'')) =
      Inr ([lit ''a'', [], lit ''|---|''], [])"
    and x2: "process_block_structure ascii_only [lit ''a'', [], lit ''|---|''] = Inr [lit ''a'', []]"
    by (simp_all add: block_eval_defs)
  have x3: "\<forall>l\<in>set [lit ''a'', []]. sublist PH_CB l \<or> set l \<inter> {96, 91, 42, 95, 126} = {}"
    by (simp add: lit_def)
  have "convert ascii_only (lit ''a\<newline>\<newline>|---|'') = Inr (lit ''a\<newline>'')"
    unfolding convert_without_inline[OF x1 x2 x3] by (simp add: block_eval_defs)
  then show ?thesis by (simp add: lit_def suffix_single is_linebreak_def)
qed

section \<open>Inline code, links and images\<close>

lemma replace_single:
  "replace [x] new t = concat (map (\<lambda>c. if c = x then new else [c]) t)"
proof -
  have "replace_from [x] new t = concat (map (\<lambda>c. if c = x then new else [c]) t)"
    by (induction t) auto
  then show ?thesis by (simp add: replace_def)
qed

lemma replacer_content:
  "(if 123 \<in> set g \<or> 125 \<in> set g
    then replace [125] (lit ''&#125;'') (replace [123] (lit ''&#123;'') g) else g) = escape_braces g"
proof -
  have a: "replace [125] (lit ''&#125;'') (replace [123] (lit ''&#123;'') g) = escape_braces g"
    unfolding replace_single escape_braces_def
    by (induction g) (auto simp: lit_def)
  have b: "123 \<notin> set g \<Longrightarrow> 125 \<notin> set g \<Longrightarrow> escape_braces g = g"
    unfolding escape_braces_def by (induction g) auto
  show ?thesis using a b by auto
qed

lemma replacer_eq:
  "replacer g (n, m) =
     (ph PH_IC n, (n + 1, dict_set m (ph PH_IC n) (lit ''{{'' @ escape_braces g @ lit ''}}'')))"
  unfolding replacer_def by (simp add: Let_def replacer_content del: replace_def)

lemma re_sub_skip:
  assumes "\<And>p s. match_at p s \<noteq> None \<Longrightarrow> s \<noteq> [] \<and> hd s \<in> H" "set A \<inter> H = {}"
  shows "re_sub match_at repl prev (A @ s) st =
     (case re_sub match_at repl (if A = [] then prev else Some (last A)) s st of
        (out, st') \<Rightarrow> (A @ out, st'))"
  using assms(2)
proof (induction A arbitrary: prev)
  case Nil
  then show ?case by (simp split: prod.splits)
next
  case (Cons a A)
  have "match_at prev (a # A @ s) = None"
    using assms(1)[of prev "a # A @ s"] Cons.prems by (cases "match_at prev (a # A @ s)") auto
  moreover have "set A \<inter> H = {}" using Cons.prems by auto
  ultimately show ?case using Cons.IH[of "Some a"] by (auto split: prod.splits)
qed

lemma re_sub_hit:
  assumes "match_at prev (c # cs) = Some (g, rest)" "length rest \<le> length cs"
  shows "re_sub match_at repl prev (c # cs) st =
     (case repl g st of
        (new, st1) \<Rightarrow>
          (case re_sub match_at repl (Some ((c # cs) ! (length cs - length rest))) rest st1 of
             (out, st') \<Rightarrow> (new @ out, st')))"
  using assms by simp

lemma INLINE_CODE_hd: "INLINE_CODE_match_at p s \<noteq> None \<Longrightarrow> s \<noteq> [] \<and> hd s \<in> {96}"
  by (cases s) (auto simp: INLINE_CODE_match_at_def split: if_splits)

lemma LINK_hd: "LINK_match_at p s \<noteq> None \<Longrightarrow> s \<noteq> [] \<and> hd s \<in> {91}"
  by (cases s) (auto simp: LINK_match_at_def split: if_splits)

lemma IMAGE_hd: "IMAGE_match_at p s \<noteq> None \<Longrightarrow> s \<noteq> [] \<and> hd s \<in> {33}"
  by (cases s) (auto simp: IMAGE_match_at_def split: if_splits)

lemma takeWhile_until: "x \<notin> set c \<Longrightarrow> takeWhile (\<lambda>y. y \<noteq> x) (c @ x # B) = c"
  by (induction c) auto

lemma dropWhile_until: "x \<notin> set c \<Longrightarrow> dropWhile (\<lambda>y. y \<noteq> x) (c @ x # B) = x # B"
  by (induction c) auto

lemma INLINE_CODE_span:
  "c \<noteq> [] \<Longrightarrow> 96 \<notin> set c \<Longrightarrow> INLINE_CODE_match_at p (96 # c @ 96 # B) = Some (c, B)"
  by (simp add: INLINE_CODE_match_at_def takeWhile_until dropWhile_until)

lemma LINK_span:
  "93 \<notin> set text \<Longrightarrow> url \<noteq> [] \<Longrightarrow> 41 \<notin> set url \<Longrightarrow>
   LINK_match_at p (91 # text @ 93 # 40 # url @ 41 # B) = Some ((text, url), B)"
  by (simp add: LINK_match_at_def takeWhile_until dropWhile_until)

lemma IMAGE_span:
  "93 \<notin> set alt \<Longrightarrow> url \<noteq> [] \<Longrightarrow> 41 \<notin> set url \<Longrightarrow>
   IMAGE_match_at p (33 # 91 # alt @ 93 # 40 # url @ 41 # B) = Some ((alt, url), B)"
  by (simp add: IMAGE_match_at_def LINK_span)

lemma re_finds_none_by_head:
  assumes "\<And>p s. match_at p s \<noteq> None \<Longrightarrow> s \<noteq> [] \<and> hd s \<in> H" "set l \<inter> H = {}"
  shows "\<not> re_finds match_at prev l"
  using assms(2)
proof (induction l arbitrary: prev)
  case Nil
  then show ?case by simp
next
  case (Cons c cs)
  have "match_at prev (c # cs) = None"
    using assms(1)[of prev "c # cs"] Cons.prems by (cases "match_at prev (c # cs)") auto
  then show ?case using Cons by auto
qed

text \<open>One span in a line: what is before it is passed, the span is replaced, what is after
  it is searched in turn.\<close>

lemma re_sub_one_span:
  assumes hd: "\<And>p s. match_at p s \<noteq> None \<Longrightarrow> s \<noteq> [] \<and> hd s \<in> H"
    and A: "set A \<inter> H = {}" and B: "set B \<inter> H = {}"
    and span: "\<And>p. match_at p (span @ B) = Some (g, B)" and ne: "span \<noteq> []"
    and repl: "repl g st = (new, st1)"
  shows "re_sub match_at repl prev (A @ span @ B) st = (A @ new @ B, st1)"
proof -
  let ?p = "if A = [] then prev else Some (last A)"
  obtain c cs where sp: "span @ B = c # cs" using ne by (cases span) auto
  have len: "length B \<le> length cs" using sp ne
    by (metis append_Cons length_append length_Cons le_add2 list.inject neq_Nil_conv)
  have "\<And>p. \<not> re_finds match_at p B"
    by (rule re_finds_none_by_head[where H=H]) (fact hd, fact B)
  then have nf: "\<And>p. re_sub match_at repl p B st1 = (B, st1)"
    by (simp add: re_sub_no_match)
  have "re_sub match_at repl ?p (c # cs) st = (new @ B, st1)"
    using re_sub_hit[of match_at ?p c cs g B repl st] span[of ?p] len
    by (simp add: sp repl nf del: re_sub.simps)
  then show ?thesis
    using re_sub_skip[where match_at=match_at and H=H and A=A and repl=repl and prev=prev
        and s="span @ B" and st=st, OF hd A] by (simp add: sp)
qed

lemma ph_chars:
  "set (ph PH_IC n) \<subseteq> {0, 1, 73, 67} \<union> {48..57}" "set (ph PH_LK n) \<subseteq> {0, 1, 76, 75} \<union> {48..57}"
  "set (ph PH_CB n) \<subseteq> {0, 1, 67, 66} \<union> {48..57}" "set (ph PH_BD n) \<subseteq> {0, 1, 66, 68} \<union> {48..57}"
  using str_nat_digits[of n]
  by (auto simp: ph_def PH_IC_def PH_LK_def PH_CB_def PH_BD_def PH_END_def lit_def)

lemma ph_no_markup:
  "set (ph PH_IC n) \<inter> {96, 91, 42, 95, 126, 33} = {}" "set (ph PH_LK n) \<inter> {96, 91, 42, 95, 126, 33} = {}"
  using ph_chars(1,2)[of n] by auto

lemma ph_starts_NUL: "\<exists>k. ph PH_IC n = 0 # k" "\<exists>k. ph PH_LK n = 0 # k" "\<exists>k. ph PH_CB n = 0 # k"
  by (simp_all add: ph_def PH_IC_def PH_LK_def PH_CB_def)

lemma replace_from_absent: "key = x # k \<Longrightarrow> x \<notin> set t \<Longrightarrow> replace_from key v t = t"
  by (induction t) auto

lemma replace_one_key:
  assumes "key = 0 # k" "0 \<notin> set A" "0 \<notin> set B"
  shows "replace key v (A @ key @ B) = A @ v @ B"
proof -
  have "replace_from key v (A @ key @ B) = A @ v @ B"
    using assms(2)
  proof (induction A)
    case Nil
    have "drop (length key - 1) (k @ B) = B" using assms(1) by simp
    then show ?case
      using replace_from_absent[OF assms(1) assms(3), of v] assms(1) by simp
  next
    case (Cons a A)
    then have "\<not> prefix key (a # A @ key @ B)" using assms(1) by auto
    then show ?case using Cons by simp
  qed
  then show ?thesis using assms(1) by (simp add: replace_def)
qed

lemma splitlines_from_single:
  "no_break s \<Longrightarrow> splitlines_from cur s = (if cur @ s = [] then [] else [cur @ s])"
  by (induction cur s rule: splitlines_from.induct) (auto simp: is_linebreak_def)

lemma splitlines_single: "no_break l \<Longrightarrow> l \<noteq> [] \<Longrightarrow> splitlines l = [l]"
  by (simp add: splitlines_def splitlines_from_single)

lemma block_line_no_block_pattern:
  "no_block_pattern U l \<Longrightarrow>
   block_line U l (list_stack, table_buffer, result) = Inr ([], [], flush_table table_buffer result @ [l])"
  by (simp add: block_line_def no_block_pattern_def)

text \<open>A document of one line that no pattern for a whole line matches: the output is what
  the inline passes make of the line.\<close>

lemma convert_single_line:
  assumes "no_break line" "line \<noteq> []" "no_block_pattern U line"
    and "inline_line line ([], [], []) = ([out], im, lm)"
  shows "convert U line = Inr out"
proof -
  have sp: "splitlines line = [line]" using splitlines_single[OF assms(1,2)] .
  have f: "FENCE_START_match U line = None" using assms(3) by (simp add: no_block_pattern_def)
  have e: "extract_code_blocks U [line] = Inr ([line], [])"
    by (simp add: extract_code_blocks_def extract_loop.simps f)
  have p: "process_block_structure U [line] = Inr [line]"
    by (simp add: process_block_structure_def block_line_no_block_pattern[OF assms(3)] flush_table_def)
  have i: "inline_loop [line] ([], [], []) = ([out], im, lm)"
    using assms(4) by (simp add: inline_loop_def)
  have "last line \<in> set line" using assms(2) by simp
  then have "\<not> is_linebreak (last line)" using assms(1) by (simp add: no_break_def)
  then have "last line \<noteq> 10" by auto
  then have ns: "\<not> suffix [10] line" by (simp add: suffix_single)
  show ?thesis by (simp add: convert_def Let_def sp e p i ns)
qed

lemma INLINE_CODE_none: "set l \<inter> {96} = {} \<Longrightarrow> \<not> re_finds INLINE_CODE_match_at prev l"
  by (rule re_finds_none_by_head[where H="{96}" and match_at=INLINE_CODE_match_at])
     (erule INLINE_CODE_hd, assumption)

lemma IMAGE_none: "set l \<inter> {33} = {} \<Longrightarrow> \<not> re_finds IMAGE_match_at prev l"
  by (rule re_finds_none_by_head[where H="{33}" and match_at=IMAGE_match_at])
     (erule IMAGE_hd, assumption)

lemma INLINE_CODE_one_span:
  assumes "set A \<inter> {96} = {}" "set B \<inter> {96} = {}" "c \<noteq> []" "96 \<notin> set c"
  shows "re_sub INLINE_CODE_match_at replacer prev (A @ 96 # c @ 96 # B) (n, m) =
     (A @ ph PH_IC n @ B, (n + 1, dict_set m (ph PH_IC n) (lit ''{{'' @ escape_braces c @ lit ''}}'')))"
proof -
  have "re_sub INLINE_CODE_match_at replacer prev (A @ (96 # c @ [96]) @ B) (n, m) =
     (A @ ph PH_IC n @ B, (n + 1, dict_set m (ph PH_IC n) (lit ''{{'' @ escape_braces c @ lit ''}}'')))"
  proof (rule re_sub_one_span[where H="{96}" and match_at=INLINE_CODE_match_at and g=c])
    show "\<And>p s. INLINE_CODE_match_at p s \<noteq> None \<Longrightarrow> s \<noteq> [] \<and> hd s \<in> {96}" by (rule INLINE_CODE_hd)
    show "\<And>p. INLINE_CODE_match_at p ((96 # c @ [96]) @ B) = Some (c, B)"
      using INLINE_CODE_span[OF assms(3,4)] by simp
  qed (use assms in \<open>simp_all add: replacer_eq\<close>)
  then show ?thesis by simp
qed

lemma LINK_one_span:
  assumes "set A \<inter> {91} = {}" "set B \<inter> {91} = {}" "93 \<notin> set text" "url \<noteq> []" "41 \<notin> set url"
  shows "re_sub LINK_match_at link_replacer prev (A @ 91 # text @ 93 # 40 # url @ 41 # B) (n, m) =
     (A @ ph PH_LK n @ B,
      (n + 1, dict_set m (ph PH_LK n) (lit ''['' @ text @ lit ''|'' @ url @ lit '']'')))"
proof -
  have "re_sub LINK_match_at link_replacer prev (A @ (91 # text @ 93 # 40 # url @ [41]) @ B) (n, m) =
     (A @ ph PH_LK n @ B,
      (n + 1, dict_set m (ph PH_LK n) (lit ''['' @ text @ lit ''|'' @ url @ lit '']'')))"
  proof (rule re_sub_one_span[where H="{91}" and match_at=LINK_match_at and g="(text, url)"])
    show "\<And>p s. LINK_match_at p s \<noteq> None \<Longrightarrow> s \<noteq> [] \<and> hd s \<in> {91}" by (rule LINK_hd)
    show "\<And>p. LINK_match_at p ((91 # text @ 93 # 40 # url @ [41]) @ B) = Some ((text, url), B)"
      using LINK_span[OF assms(3,4,5)] by simp
  qed (use assms in \<open>simp_all add: link_replacer_def Let_def\<close>)
  then show ?thesis by simp
qed

lemma IMAGE_one_span:
  assumes "set A \<inter> {33} = {}" "set B \<inter> {33} = {}" "93 \<notin> set alt" "url \<noteq> []" "41 \<notin> set url"
  shows "re_sub IMAGE_match_at img_replacer prev (A @ 33 # 91 # alt @ 93 # 40 # url @ 41 # B) (n, m) =
     (A @ ph PH_LK n @ B, (n + 1, dict_set m (ph PH_LK n) (lit ''!'' @ url @ lit ''!'')))"
proof -
  have "re_sub IMAGE_match_at img_replacer prev (A @ (33 # 91 # alt @ 93 # 40 # url @ [41]) @ B) (n, m) =
     (A @ ph PH_LK n @ B, (n + 1, dict_set m (ph PH_LK n) (lit ''!'' @ url @ lit ''!'')))"
  proof (rule re_sub_one_span[where H="{33}" and match_at=IMAGE_match_at and g="(alt, url)"])
    show "\<And>p s. IMAGE_match_at p s \<noteq> None \<Longrightarrow> s \<noteq> [] \<and> hd s \<in> {33}" by (rule IMAGE_hd)
    show "\<And>p. IMAGE_match_at p ((33 # 91 # alt @ 93 # 40 # url @ [41]) @ B) = Some ((alt, url), B)"
      using IMAGE_span[OF assms(3,4,5)] by simp
  qed (use assms in \<open>simp_all add: img_replacer_def Let_def\<close>)
  then show ?thesis by simp
qed

lemma inline_line_code_span:
  assumes A: "set A \<inter> {0, 96, 91, 42, 95, 126} = {}" and B: "set B \<inter> {0, 96, 91, 42, 95, 126} = {}"
    and c: "c \<noteq> []" "96 \<notin> set c"
    and ph: "\<not> sublist PH_CB (A @ 96 # c @ 96 # B)"
  shows "inline_line (A @ 96 # c @ 96 # B) ([], [], []) =
     ([A @ lit ''{{'' @ escape_braces c @ lit ''}}'' @ B],
      [(ph PH_IC 0, lit ''{{'' @ escape_braces c @ lit ''}}'')], [])"
proof -
  let ?key = "ph PH_IC 0"
  let ?v = "lit ''{{'' @ escape_braces c @ lit ''}}''"
  have A96: "set A \<inter> {96} = {}" and B96: "set B \<inter> {96} = {}" using A B by auto
  have "re_sub INLINE_CODE_match_at replacer None (A @ 96 # c @ 96 # B) (0, []) =
      (A @ ?key @ B, (0 + 1, dict_set [] ?key ?v))"
    by (rule INLINE_CODE_one_span[OF A96 B96 c])
  then have e1: "extract_inline_code (A @ 96 # c @ 96 # B) [] = (A @ ?key @ B, [(?key, ?v)])"
    by (simp add: extract_inline_code_def)
  have plain: "set (A @ ?key @ B) \<inter> {96, 91, 42, 95, 126} = {}"
    using A B ph_no_markup(1)[of 0] by auto
  have e2: "extract_links (A @ ?key @ B) [] = (A @ ?key @ B, [])"
    using no_inline_pattern[OF plain, of None] by (simp add: extract_links_plain)
  have e3: "process_inline_formatting (A @ ?key @ B) = A @ ?key @ B"
    using no_inline_pattern[OF plain, of None] by (simp add: process_inline_formatting_plain)
  obtain k where k: "?key = 0 # k" using ph_starts_NUL(1)[of 0] by blast
  have e4: "restore_placeholders (A @ ?key @ B) [(?key, ?v)] = A @ ?v @ B"
    using replace_one_key[OF k, of A B ?v] A B by (simp add: restore_placeholders_def)
  show ?thesis
    using ph by (simp add: inline_line_def e1 e2 e3 e4 Let_def)
qed

lemma inline_line_link:
  assumes A: "set A \<inter> {0, 33, 96, 91, 42, 95, 126} = {}" and B: "set B \<inter> {0, 33, 96, 91, 42, 95, 126} = {}"
    and tx: "set text \<inter> {93, 96, 33} = {}" and url: "url \<noteq> []" "set url \<inter> {41, 96, 33} = {}"
    and ph: "\<not> sublist PH_CB (A @ 91 # text @ 93 # 40 # url @ 41 # B)"
  shows "inline_line (A @ 91 # text @ 93 # 40 # url @ 41 # B) ([], [], []) =
     ([A @ lit ''['' @ text @ lit ''|'' @ url @ lit '']'' @ B], [],
      [(ph PH_LK 0, lit ''['' @ text @ lit ''|'' @ url @ lit '']'')])"
proof -
  let ?line = "A @ 91 # text @ 93 # 40 # url @ 41 # B"
  let ?key = "ph PH_LK 0"
  let ?v = "lit ''['' @ text @ lit ''|'' @ url @ lit '']''"
  have l96: "set ?line \<inter> {96} = {}" and l33: "set ?line \<inter> {33} = {}"
    using A B tx url by auto
  have e1: "extract_inline_code ?line [] = (?line, [])"
    using INLINE_CODE_none[OF l96, of None] by (simp add: extract_inline_code_plain)
  have i1: "re_sub IMAGE_match_at img_replacer None ?line (0, []) = (?line, (0, []))"
    using IMAGE_none[OF l33, of None] by (simp add: re_sub_no_match)
  have A91: "set A \<inter> {91} = {}" and B91: "set B \<inter> {91} = {}" using A B by auto
  have "re_sub LINK_match_at link_replacer None ?line (0, []) =
      (A @ ?key @ B, (0 + 1, dict_set [] ?key ?v))"
    by (rule LINK_one_span[OF A91 B91]) (use tx url in auto)
  then have e2: "extract_links ?line [] = (A @ ?key @ B, [(?key, ?v)])"
    by (simp add: extract_links_def i1)
  have plain: "set (A @ ?key @ B) \<inter> {96, 91, 42, 95, 126} = {}"
    using A B ph_no_markup(2)[of 0] by auto
  have e3: "process_inline_formatting (A @ ?key @ B) = A @ ?key @ B"
    using no_inline_pattern[OF plain, of None] by (simp add: process_inline_formatting_plain)
  obtain k where k: "?key = 0 # k" using ph_starts_NUL(2)[of 0] by blast
  have e4: "restore_placeholders (A @ ?key @ B) [(?key, ?v)] = A @ ?v @ B"
    using replace_one_key[OF k, of A B ?v] A B by (simp add: restore_placeholders_def)
  show ?thesis
    using ph by (simp add: inline_line_def e1 e2 e3 e4 Let_def)
qed

lemma inline_line_image:
  assumes A: "set A \<inter> {0, 33, 96, 91, 42, 95, 126} = {}" and B: "set B \<inter> {0, 33, 96, 91, 42, 95, 126} = {}"
    and alt: "set alt \<inter> {93, 96} = {}" and url: "url \<noteq> []" "set url \<inter> {41, 96} = {}"
    and ph: "\<not> sublist PH_CB (A @ 33 # 91 # alt @ 93 # 40 # url @ 41 # B)"
  shows "inline_line (A @ 33 # 91 # alt @ 93 # 40 # url @ 41 # B) ([], [], []) =
     ([A @ lit ''!'' @ url @ lit ''!'' @ B], [], [(ph PH_LK 0, lit ''!'' @ url @ lit ''!'')])"
proof -
  let ?line = "A @ 33 # 91 # alt @ 93 # 40 # url @ 41 # B"
  let ?key = "ph PH_LK 0"
  let ?v = "lit ''!'' @ url @ lit ''!''"
  have l96: "set ?line \<inter> {96} = {}" using A B alt url by auto
  have e1: "extract_inline_code ?line [] = (?line, [])"
    using INLINE_CODE_none[OF l96, of None] by (simp add: extract_inline_code_plain)
  have A33: "set A \<inter> {33} = {}" and B33: "set B \<inter> {33} = {}" using A B by auto
  have i1: "re_sub IMAGE_match_at img_replacer None ?line (0, []) =
      (A @ ?key @ B, (0 + 1, dict_set [] ?key ?v))"
    by (rule IMAGE_one_span[OF A33 B33]) (use alt url in auto)
  have plain: "set (A @ ?key @ B) \<inter> {96, 91, 42, 95, 126} = {}"
    using A B ph_no_markup(2)[of 0] by auto
  have i2: "re_sub LINK_match_at link_replacer None (A @ ?key @ B) (Suc 0, [(?key, ?v)]) =
      (A @ ?key @ B, (Suc 0, [(?key, ?v)]))"
    using no_inline_pattern(3)[OF plain, of None] by (simp add: re_sub_no_match)
  have e2: "extract_links ?line [] = (A @ ?key @ B, [(?key, ?v)])"
    using i1 i2 by (simp add: extract_links_def)
  have e3: "process_inline_formatting (A @ ?key @ B) = A @ ?key @ B"
    using no_inline_pattern[OF plain, of None] by (simp add: process_inline_formatting_plain)
  obtain k where k: "?key = 0 # k" using ph_starts_NUL(2)[of 0] by blast
  have e4: "restore_placeholders (A @ ?key @ B) [(?key, ?v)] = A @ ?v @ B"
    using replace_one_key[OF k, of A B ?v] A B by (simp add: restore_placeholders_def)
  show ?thesis
    using ph by (simp add: inline_line_def e1 e2 e3 e4 Let_def)
qed

lemma re_sub_first_span:
  assumes hd: "\<And>p s. match_at p s \<noteq> None \<Longrightarrow> s \<noteq> [] \<and> hd s \<in> H"
    and A: "set A \<inter> H = {}"
    and span: "\<And>p. match_at p (span @ B) = Some (g, B)" and ne: "span \<noteq> []"
  shows "re_sub match_at repl prev (A @ span @ B) st =
     (case repl g st of
        (new, st1) \<Rightarrow>
          (case re_sub match_at repl (Some (last span)) B st1 of
             (out, st') \<Rightarrow> (A @ new @ out, st')))"
proof -
  let ?p = "if A = [] then prev else Some (last A)"
  obtain c cs where sp: "span @ B = c # cs" using ne by (cases span) auto
  have lcs: "length cs = length span + length B - 1"
    using arg_cong[OF sp, of length] by simp
  then have len: "length B \<le> length cs" using ne by (cases span) auto
  have idx: "(c # cs) ! (length cs - length B) = last span"
  proof -
    have "length cs - length B = length span - 1" using lcs ne by (cases span) auto
    moreover have "(span @ B) ! (length span - 1) = last span"
      using ne by (simp add: nth_append last_conv_nth)
    ultimately show ?thesis by (simp add: sp)
  qed
  have "re_sub match_at repl ?p (c # cs) st =
     (case repl g st of
        (new, st1) \<Rightarrow>
          (case re_sub match_at repl (Some (last span)) B st1 of
             (out, st') \<Rightarrow> (new @ out, st')))"
    using re_sub_hit[of match_at ?p c cs g B repl st] span[of ?p] len
    by (simp add: sp idx del: re_sub.simps)
  then show ?thesis
    using re_sub_skip[where match_at=match_at and H=H and A=A and repl=repl and prev=prev
        and s="span @ B" and st=st, OF hd A] by (simp add: sp split: prod.splits)
qed

lemma extract_inline_code_first_span:
  assumes "set A \<inter> {96} = {}" "c \<noteq> []" "96 \<notin> set c"
  shows "extract_inline_code (A @ 96 # c @ 96 # B) m =
     (case re_sub INLINE_CODE_match_at replacer (Some 96) B
             (length m + 1,
              dict_set m (ph PH_IC (length m)) (lit ''{{'' @ escape_braces c @ lit ''}}'')) of
        (out, st') \<Rightarrow> (A @ ph PH_IC (length m) @ out, snd st'))"
proof -
  have "re_sub INLINE_CODE_match_at replacer None (A @ (96 # c @ [96]) @ B) (length m, m) =
     (case replacer c (length m, m) of
        (new, st1) \<Rightarrow>
          (case re_sub INLINE_CODE_match_at replacer (Some (last (96 # c @ [96]))) B st1 of
             (out, st') \<Rightarrow> (A @ new @ out, st')))"
  proof (rule re_sub_first_span[where H="{96}" and match_at=INLINE_CODE_match_at and g=c])
    show "\<And>p s. INLINE_CODE_match_at p s \<noteq> None \<Longrightarrow> s \<noteq> [] \<and> hd s \<in> {96}" by (rule INLINE_CODE_hd)
    show "\<And>p. INLINE_CODE_match_at p ((96 # c @ [96]) @ B) = Some (c, B)"
      using INLINE_CODE_span[OF assms(2,3)] by simp
  qed (use assms in simp_all)
  then show ?thesis
    by (simp add: extract_inline_code_def replacer_eq split: prod.splits)
qed

text \<open>
  Claim C9. A span between two backticks, with at least one character and no backtick
  inside, is replaced by a placeholder that stands for the content between \<open>{{\<close> and
  \<open>}}\<close>, each brace of the content written as its entity; a content without braces is
  kept as it is. The first span of a line is found after text that has no backtick, and
  the spans after it in the same way. In the output of the converter, for a line with
  the span between plain text, the span is that replacement.
\<close>

theorem inline_code_rendered:
  assumes c: "c \<noteq> []" "96 \<notin> set c"
    and line: "line = A @ 96 # c @ 96 # B"
  shows "(set A \<inter> {96} = {} \<longrightarrow>
            extract_inline_code line m =
              (case re_sub INLINE_CODE_match_at replacer (Some 96) B
                      (length m + 1,
                       dict_set m (ph PH_IC (length m)) (lit ''{{'' @ escape_braces c @ lit ''}}'')) of
                 (out, st') \<Rightarrow> (A @ ph PH_IC (length m) @ out, snd st'))) \<and>
         (set A \<inter> {0, 96, 91, 42, 95, 126} = {} \<and> set B \<inter> {0, 96, 91, 42, 95, 126} = {} \<and>
          \<not> sublist PH_CB line \<and> no_break line \<and> no_block_pattern U line \<longrightarrow>
            convert U line = Inr (A @ lit ''{{'' @ escape_braces c @ lit ''}}'' @ B)) \<and>
         (123 \<notin> set c \<and> 125 \<notin> set c \<longrightarrow> escape_braces c = c)"
proof (intro conjI impI)
  assume "set A \<inter> {96} = {}"
  then show "extract_inline_code line m =
              (case re_sub INLINE_CODE_match_at replacer (Some 96) B
                      (length m + 1,
                       dict_set m (ph PH_IC (length m)) (lit ''{{'' @ escape_braces c @ lit ''}}'')) of
                 (out, st') \<Rightarrow> (A @ ph PH_IC (length m) @ out, snd st'))"
    unfolding line by (rule extract_inline_code_first_span[OF _ c])
next
  assume h: "set A \<inter> {0, 96, 91, 42, 95, 126} = {} \<and> set B \<inter> {0, 96, 91, 42, 95, 126} = {} \<and>
          \<not> sublist PH_CB line \<and> no_break line \<and> no_block_pattern U line"
  have ne: "line \<noteq> []" by (simp add: line)
  have "inline_line line ([], [], []) =
     ([A @ lit ''{{'' @ escape_braces c @ lit ''}}'' @ B],
      [(ph PH_IC 0, lit ''{{'' @ escape_braces c @ lit ''}}'')], [])"
    unfolding line using inline_line_code_span[of A B c] h c line by simp
  then show "convert U line = Inr (A @ lit ''{{'' @ escape_braces c @ lit ''}}'' @ B)"
    using convert_single_line[of line U] h ne by simp
next
  assume "123 \<notin> set c \<and> 125 \<notin> set c"
  then show "escape_braces c = c"
    unfolding escape_braces_def by (induction c) auto
qed

lemmas block_matcher_defs =
  no_block_pattern_def FENCE_START_match_def TABLE_ROW_match_def piped_def HEADING_match_def
  HR_match_def BLOCKQUOTE_match_def UL_ITEM_match_def OL_ITEM_match_def is_space_def is_digit_def
  is_word_def suffix_single at_dollar_def Let_def

theorem inline_code_rendered_witness:
  "convert ascii_only (lit ''use `f{x}` here'') = Inr (lit ''use {{f&#123;x&#125;}} here'') \<and>
   convert ascii_only (lit ''`code`'') = Inr (lit ''{{code}}'')"
proof -
  have c1: "lit ''f{x}'' \<noteq> []" "96 \<notin> set (lit ''f{x}'')"
    and c2: "lit ''code'' \<noteq> []" "96 \<notin> set (lit ''code'')"
    by (simp_all add: lit_def)
  have l1: "lit ''use `f{x}` here'' = lit ''use '' @ 96 # lit ''f{x}'' @ 96 # lit '' here''"
    and l2: "lit ''`code`'' = [] @ 96 # lit ''code'' @ 96 # []"
    by (simp_all add: lit_def)
  have h1: "set (lit ''use '') \<inter> {0, 96, 91, 42, 95, 126} = {} \<and>
      set (lit '' here'') \<inter> {0, 96, 91, 42, 95, 126} = {} \<and>
      \<not> sublist PH_CB (lit ''use `f{x}` here'') \<and> no_break (lit ''use `f{x}` here'') \<and>
      no_block_pattern ascii_only (lit ''use `f{x}` here'')"
    by (simp add: lit_def no_NUL_no_PH_CB is_linebreak_def block_matcher_defs)
  have h2: "set [] \<inter> {0::nat, 96, 91, 42, 95, 126} = {} \<and> set [] \<inter> {0::nat, 96, 91, 42, 95, 126} = {} \<and>
      \<not> sublist PH_CB (lit ''`code`'') \<and> no_break (lit ''`code`'') \<and>
      no_block_pattern ascii_only (lit ''`code`'')"
    by (simp add: lit_def no_NUL_no_PH_CB is_linebreak_def block_matcher_defs)
  have "convert ascii_only (lit ''use `f{x}` here'') =
      Inr (lit ''use '' @ lit ''{{'' @ escape_braces (lit ''f{x}'') @ lit ''}}'' @ lit '' here'')"
    using inline_code_rendered[OF c1 l1, of "[]" ascii_only] h1 by blast
  moreover have "convert ascii_only (lit ''`code`'') =
      Inr ([] @ lit ''{{'' @ escape_braces (lit ''code'') @ lit ''}}'' @ [])"
    using inline_code_rendered[OF c2 l2, of "[]" ascii_only] h2 by blast
  ultimately show ?thesis by (simp add: escape_braces_def lit_def)
qed

lemma IMAGE_first_span:
  assumes "set A \<inter> {33} = {}" "93 \<notin> set alt" "url \<noteq> []" "41 \<notin> set url"
  shows "re_sub IMAGE_match_at img_replacer prev (A @ 33 # 91 # alt @ 93 # 40 # url @ 41 # B) (n, m) =
     (case re_sub IMAGE_match_at img_replacer (Some 41) B
             (n + 1, dict_set m (ph PH_LK n) (lit ''!'' @ url @ lit ''!'')) of
        (out, st') \<Rightarrow> (A @ ph PH_LK n @ out, st'))"
proof -
  have "re_sub IMAGE_match_at img_replacer prev (A @ (33 # 91 # alt @ 93 # 40 # url @ [41]) @ B) (n, m) =
     (case img_replacer (alt, url) (n, m) of
        (new, st1) \<Rightarrow>
          (case re_sub IMAGE_match_at img_replacer (Some (last (33 # 91 # alt @ 93 # 40 # url @ [41]))) B st1 of
             (out, st') \<Rightarrow> (A @ new @ out, st')))"
  proof (rule re_sub_first_span[where H="{33}" and match_at=IMAGE_match_at and g="(alt, url)"])
    show "\<And>p s. IMAGE_match_at p s \<noteq> None \<Longrightarrow> s \<noteq> [] \<and> hd s \<in> {33}" by (rule IMAGE_hd)
    show "\<And>p. IMAGE_match_at p ((33 # 91 # alt @ 93 # 40 # url @ [41]) @ B) = Some ((alt, url), B)"
      using IMAGE_span[OF assms(2,3,4)] by simp
  qed (use assms in simp_all)
  then show ?thesis by (simp add: img_replacer_def Let_def)
qed

lemma LINK_first_span:
  assumes "set A \<inter> {91} = {}" "93 \<notin> set text" "url \<noteq> []" "41 \<notin> set url"
  shows "re_sub LINK_match_at link_replacer prev (A @ 91 # text @ 93 # 40 # url @ 41 # B) (n, m) =
     (case re_sub LINK_match_at link_replacer (Some 41) B
             (n + 1, dict_set m (ph PH_LK n) (lit ''['' @ text @ lit ''|'' @ url @ lit '']'')) of
        (out, st') \<Rightarrow> (A @ ph PH_LK n @ out, st'))"
proof -
  have "re_sub LINK_match_at link_replacer prev (A @ (91 # text @ 93 # 40 # url @ [41]) @ B) (n, m) =
     (case link_replacer (text, url) (n, m) of
        (new, st1) \<Rightarrow>
          (case re_sub LINK_match_at link_replacer (Some (last (91 # text @ 93 # 40 # url @ [41]))) B st1 of
             (out, st') \<Rightarrow> (A @ new @ out, st')))"
  proof (rule re_sub_first_span[where H="{91}" and match_at=LINK_match_at and g="(text, url)"])
    show "\<And>p s. LINK_match_at p s \<noteq> None \<Longrightarrow> s \<noteq> [] \<and> hd s \<in> {91}" by (rule LINK_hd)
    show "\<And>p. LINK_match_at p ((91 # text @ 93 # 40 # url @ [41]) @ B) = Some ((text, url), B)"
      using LINK_span[OF assms(2,3,4)] by simp
  qed (use assms in simp_all)
  then show ?thesis by (simp add: link_replacer_def Let_def)
qed

text \<open>
  Claim C8. In a line, the images are replaced first, then the links in what the first
  pass has left. An image \<open>![alt](url)\<close> is replaced by a placeholder that stands for
  \<open>!url!\<close>, without the alternative text; a link \<open>[text](url)\<close> by a placeholder that
  stands for \<open>[text|url]\<close>. In the output of the converter, for a line with the image or
  the link between plain text, the address is written as it is in the input, whatever
  underscores, asterisks or tildes it holds.
\<close>

theorem links_and_images_rendered:
  assumes label: "93 \<notin> set label" and url: "url \<noteq> []" "41 \<notin> set url"
    and img: "img = A @ 33 # 91 # label @ 93 # 40 # url @ 41 # B"
    and lnk: "lnk = A @ 91 # label @ 93 # 40 # url @ 41 # B"
  shows "extract_links line m =
           (case re_sub IMAGE_match_at img_replacer None line (length m, m) of
              (line1, st1) \<Rightarrow>
                (case re_sub LINK_match_at link_replacer None line1 st1 of
                   (line2, st2) \<Rightarrow> (line2, snd st2))) \<and>
         (set A \<inter> {33} = {} \<longrightarrow>
            re_sub IMAGE_match_at img_replacer prev img (n, m) =
              (case re_sub IMAGE_match_at img_replacer (Some 41) B
                      (n + 1, dict_set m (ph PH_LK n) (lit ''!'' @ url @ lit ''!'')) of
                 (out, st') \<Rightarrow> (A @ ph PH_LK n @ out, st'))) \<and>
         (set A \<inter> {91} = {} \<longrightarrow>
            re_sub LINK_match_at link_replacer prev lnk (n, m) =
              (case re_sub LINK_match_at link_replacer (Some 41) B
                      (n + 1, dict_set m (ph PH_LK n) (lit ''['' @ label @ lit ''|'' @ url @ lit '']'')) of
                 (out, st') \<Rightarrow> (A @ ph PH_LK n @ out, st'))) \<and>
         (set A \<inter> {0, 33, 96, 91, 42, 95, 126} = {} \<and> set B \<inter> {0, 33, 96, 91, 42, 95, 126} = {} \<and>
          96 \<notin> set label \<and> 96 \<notin> set url \<and>
          \<not> sublist PH_CB img \<and> no_break img \<and> no_block_pattern U img \<longrightarrow>
            convert U img = Inr (A @ lit ''!'' @ url @ lit ''!'' @ B)) \<and>
         (set A \<inter> {0, 33, 96, 91, 42, 95, 126} = {} \<and> set B \<inter> {0, 33, 96, 91, 42, 95, 126} = {} \<and>
          set label \<inter> {96, 33} = {} \<and> set url \<inter> {96, 33} = {} \<and>
          \<not> sublist PH_CB lnk \<and> no_break lnk \<and> no_block_pattern U lnk \<longrightarrow>
            convert U lnk = Inr (A @ lit ''['' @ label @ lit ''|'' @ url @ lit '']'' @ B))"
proof (intro conjI impI)
  show "extract_links line m =
           (case re_sub IMAGE_match_at img_replacer None line (length m, m) of
              (line1, st1) \<Rightarrow>
                (case re_sub LINK_match_at link_replacer None line1 st1 of
                   (line2, st2) \<Rightarrow> (line2, snd st2)))"
    by (simp add: extract_links_def split: prod.splits)
next
  assume "set A \<inter> {33} = {}"
  then show "re_sub IMAGE_match_at img_replacer prev img (n, m) =
              (case re_sub IMAGE_match_at img_replacer (Some 41) B
                      (n + 1, dict_set m (ph PH_LK n) (lit ''!'' @ url @ lit ''!'')) of
                 (out, st') \<Rightarrow> (A @ ph PH_LK n @ out, st'))"
    unfolding img by (rule IMAGE_first_span[OF _ label url])
next
  assume "set A \<inter> {91} = {}"
  then show "re_sub LINK_match_at link_replacer prev lnk (n, m) =
              (case re_sub LINK_match_at link_replacer (Some 41) B
                      (n + 1, dict_set m (ph PH_LK n) (lit ''['' @ label @ lit ''|'' @ url @ lit '']'')) of
                 (out, st') \<Rightarrow> (A @ ph PH_LK n @ out, st'))"
    unfolding lnk by (rule LINK_first_span[OF _ label url])
next
  assume h: "set A \<inter> {0, 33, 96, 91, 42, 95, 126} = {} \<and> set B \<inter> {0, 33, 96, 91, 42, 95, 126} = {} \<and>
          96 \<notin> set label \<and> 96 \<notin> set url \<and>
          \<not> sublist PH_CB img \<and> no_break img \<and> no_block_pattern U img"
  have ne: "img \<noteq> []" by (simp add: img)
  have "inline_line img ([], [], []) =
     ([A @ lit ''!'' @ url @ lit ''!'' @ B], [], [(ph PH_LK 0, lit ''!'' @ url @ lit ''!'')])"
    unfolding img using inline_line_image[of A B label url] h label url img by simp
  then show "convert U img = Inr (A @ lit ''!'' @ url @ lit ''!'' @ B)"
    using convert_single_line[of img U] h ne by simp
next
  assume h: "set A \<inter> {0, 33, 96, 91, 42, 95, 126} = {} \<and> set B \<inter> {0, 33, 96, 91, 42, 95, 126} = {} \<and>
          set label \<inter> {96, 33} = {} \<and> set url \<inter> {96, 33} = {} \<and>
          \<not> sublist PH_CB lnk \<and> no_break lnk \<and> no_block_pattern U lnk"
  have ne: "lnk \<noteq> []" by (simp add: lnk)
  have "set label \<inter> {93, 96, 33} = {}" "set url \<inter> {41, 96, 33} = {}"
    using h label url by auto
  then have "inline_line lnk ([], [], []) =
     ([A @ lit ''['' @ label @ lit ''|'' @ url @ lit '']'' @ B], [],
      [(ph PH_LK 0, lit ''['' @ label @ lit ''|'' @ url @ lit '']'')])"
    unfolding lnk using inline_line_link[of A B label url] h url(1) lnk by simp
  then show "convert U lnk = Inr (A @ lit ''['' @ label @ lit ''|'' @ url @ lit '']'' @ B)"
    using convert_single_line[of lnk U] h ne by simp
qed

lemma no_block_pattern_by_head:
  assumes "l = [] \<or> hd l \<notin> {96, 126, 124, 35, 42, 45, 95, 62, 43} \<and> \<not> is_space (hd l) \<and> \<not> is_digit U (hd l)"
  shows "no_block_pattern U l"
  unfolding no_block_pattern_def using no_block_pattern[OF assms] by blast

theorem links_and_images_rendered_witness:
  "convert ascii_only (lit ''see [the _doc_](https://example.com/some_path/file_name) now'') =
     Inr (lit ''see [the _doc_|https://example.com/some_path/file_name] now'') \<and>
   convert ascii_only (lit ''see ![the _doc_](https://example.com/some_path/file_name) now'') =
     Inr (lit ''see !https://example.com/some_path/file_name! now'')"
proof -
  let ?A = "lit ''see ''" and ?B = "lit '' now''" and ?label = "lit ''the _doc_''"
  let ?url = "lit ''https://example.com/some_path/file_name''"
  have label: "93 \<notin> set ?label" and url: "?url \<noteq> []" "41 \<notin> set ?url"
    by (simp_all add: lit_def)
  have img: "lit ''see ![the _doc_](https://example.com/some_path/file_name) now'' =
      ?A @ 33 # 91 # ?label @ 93 # 40 # ?url @ 41 # ?B"
    and lnk: "lit ''see [the _doc_](https://example.com/some_path/file_name) now'' =
      ?A @ 91 # ?label @ 93 # 40 # ?url @ 41 # ?B"
    by (simp_all add: lit_def)
  have pA: "set ?A \<inter> {0, 33, 96, 91, 42, 95, 126} = {}" and pB: "set ?B \<inter> {0, 33, 96, 91, 42, 95, 126} = {}"
    and p1: "96 \<notin> set ?label" "96 \<notin> set ?url"
    and p2: "set ?label \<inter> {96, 33} = {}" "set ?url \<inter> {96, 33} = {}"
    by (simp_all add: lit_def)
  have ph: "\<not> sublist PH_CB (?A @ 33 # 91 # ?label @ 93 # 40 # ?url @ 41 # ?B)"
    "\<not> sublist PH_CB (?A @ 91 # ?label @ 93 # 40 # ?url @ 41 # ?B)"
    by (rule no_NUL_no_PH_CB, simp add: lit_def)+
  have nb: "no_break (?A @ 33 # 91 # ?label @ 93 # 40 # ?url @ 41 # ?B)"
    "no_break (?A @ 91 # ?label @ 93 # 40 # ?url @ 41 # ?B)"
    by (simp_all add: lit_def is_linebreak_def)
  have bp: "no_block_pattern ascii_only (?A @ 33 # 91 # ?label @ 93 # 40 # ?url @ 41 # ?B)"
    "no_block_pattern ascii_only (?A @ 91 # ?label @ 93 # 40 # ?url @ 41 # ?B)"
    by (rule no_block_pattern_by_head, simp add: lit_def is_space_def is_digit_def)+
  note inst = links_and_images_rendered[OF label url refl refl, where U=ascii_only and A="?A" and B="?B"]
  have "convert ascii_only (?A @ 91 # ?label @ 93 # 40 # ?url @ 41 # ?B) =
      Inr (?A @ lit ''['' @ ?label @ lit ''|'' @ ?url @ lit '']'' @ ?B)"
    by (rule inst[THEN conjunct2, THEN conjunct2, THEN conjunct2, THEN conjunct2, THEN mp])
       (intro conjI pA pB p2 ph nb bp)
  moreover have "convert ascii_only (?A @ 33 # 91 # ?label @ 93 # 40 # ?url @ 41 # ?B) =
      Inr (?A @ lit ''!'' @ ?url @ lit ''!'' @ ?B)"
    by (rule inst[THEN conjunct2, THEN conjunct2, THEN conjunct2, THEN conjunct1, THEN mp])
       (intro conjI pA pB p1 ph nb bp)
  ultimately show ?thesis unfolding img lnk by (simp add: lit_def)
qed

section \<open>List items in a document\<close>

lemma flush_table_grows: "prefix result (flush_table table_buffer result)"
  by (simp add: flush_table_def)

lemma block_loop_grows:
  "block_loop U ls (list_stack, table_buffer, result) = Inr (list_stack', table_buffer', result') \<Longrightarrow>
   prefix result result'"
proof (induction ls arbitrary: list_stack table_buffer result)
  case Nil
  then show ?case by simp
next
  case (Cons l ls)
  from block_line_total[of U l "(list_stack, table_buffer, result)"] obtain a b c where
    st: "block_line U l (list_stack, table_buffer, result) = Inr (a, b, c)"
    by (metis prod_cases3)
  have "prefix result c"
    using block_line_cases[OF st] flush_table_grows[of result table_buffer]
    by (auto intro: prefix_order.trans)
  moreover have "prefix c result'"
    using Cons.IH[of a b c] Cons.prems st by simp
  ultimately show ?case by (rule prefix_order.trans)
qed

text \<open>A line in a document: the lines before it leave a state, the line is converted in
  that state, and what it writes stays where it is, whatever follows.\<close>

lemma process_block_structure_at:
  assumes pre: "block_loop U pre ([], [], []) = Inr (list_stack, table_buffer, result)"
    and line: "block_line U line (list_stack, table_buffer, result) = Inr (S, [], out)"
  shows "block_loop U (pre @ [line]) ([], [], []) = Inr (S, [], out)"
    and "process_block_structure U (pre @ [line]) = Inr out"
    and "\<exists>r. process_block_structure U (pre @ line # post) = Inr r \<and> prefix out r"
    and "process_block_structure U pre = Inr (flush_table table_buffer result)"
proof -
  show a: "block_loop U (pre @ [line]) ([], [], []) = Inr (S, [], out)"
    by (simp add: block_loop_append pre line)
  then show "process_block_structure U (pre @ [line]) = Inr out"
    by (simp add: process_block_structure_def flush_table_def)
  show "process_block_structure U pre = Inr (flush_table table_buffer result)"
    by (simp add: process_block_structure_def pre)
  from block_loop_total[of U post "(S, [], out)"] obtain a' b' c' where
    p: "block_loop U post (S, [], out) = Inr (a', b', c')" by (metis prod_cases3)
  have "block_loop U (pre @ line # post) ([], [], []) = Inr (a', b', c')"
    using a p block_loop_append[of U "pre @ [line]" post "([], [], [])"] by simp
  then have "process_block_structure U (pre @ line # post) = Inr (flush_table b' c')"
    by (simp add: process_block_structure_def)
  moreover have "prefix out (flush_table b' c')"
    using block_loop_grows[OF p] flush_table_grows[of c' b'] by (rule prefix_order.trans)
  ultimately show "\<exists>r. process_block_structure U (pre @ line # post) = Inr r \<and> prefix out r"
    by blast
qed

lemma block_line_resets:
  assumes "block_line U other (list_stack, table_buffer, result) = Inr (list_stack', table_buffer', result')"
    and "sublist PH_CB other \<or>
         \<not> TABLE_ROW_match other \<and> UL_ITEM_match other = None \<and> OL_ITEM_match U other = None"
  shows "list_stack' = []"
  using assms by (auto simp: block_line_def Let_def split: option.splits if_splits)

lemma block_loop_last_resets:
  assumes "block_loop U (pre0 @ [other]) ([], [], []) = Inr (list_stack, table_buffer, result)"
    and "sublist PH_CB other \<or>
         \<not> TABLE_ROW_match other \<and> UL_ITEM_match other = None \<and> OL_ITEM_match U other = None"
  shows "list_stack = []"
proof -
  from block_loop_total[of U pre0 "([], [], [])"] obtain a b c where
    p: "block_loop U pre0 ([], [], []) = Inr (a, b, c)" by (metis prod_cases3)
  have "block_line U other (a, b, c) = Inr (list_stack, table_buffer, result)"
    using assms(1) p by (simp add: block_loop_append split: sum.splits)
  then show ?thesis using assms(2) by (rule block_line_resets)
qed

lemma block_loop_last_item:
  assumes "block_loop U (pre0 @ [m # g @ c]) ([], [], []) = Inr (list_stack, table_buffer, result)"
    and "m = 45 \<or> m = 42 \<or> m = 43" "g \<noteq> []" "list_all is_space g"
    and "c = [] \<or> \<not> is_space (hd c)" "10 \<notin> set c" "\<not> sublist PH_CB (m # g @ c)"
  shows "list_stack = [ul]"
proof -
  from block_loop_total[of U pre0 "([], [], [])"] obtain a b r where
    p: "block_loop U pre0 ([], [], []) = Inr (a, b, r)" by (metis prod_cases3)
  have l: "block_line U (m # g @ c) (a, b, r) = Inr (list_stack, table_buffer, result)"
    using assms(1) p by (simp add: block_loop_append split: sum.splits)
  have mk: "(ul = ul \<and> ([m] = [45] \<or> [m] = [42] \<or> [m] = [43])) \<or>
       (ul = ol \<and> (\<exists>ds. ds \<noteq> [] \<and> list_all (is_digit U) ds \<and> [m] = ds @ [46]))"
    using assms(2) by simp
  have e: "m # g @ c = [] @ [m] @ g @ c" by simp
  have "block_line U (m # g @ c) (a, b, r) =
      Inr (item_stack ul (length ([]::pystr) div 2 + 1) a, [],
           flush_table b r @ [list_prefix (item_stack ul (length ([]::pystr) div 2 + 1) a) @
             (if ul = ul then task_render c else lit '' '' @ c)])"
    by (rule block_line_list_item[OF assms(7) _ assms(3,4,5,6) mk e refl refl]) simp
  with l show ?thesis by (simp add: item_stack_def)
qed

text \<open>
  Claim C6, as amended. For a list item, unordered or ordered, the depth is the number of
  characters of its indentation divided by two, plus one. The stack that the lines before
  the item have left is cut or filled up to that depth, and its entry at that depth is the
  type of the item. The prefix of the line is one character for each entry of the stack up
  to that depth: \<open>*\<close> for an unordered entry, \<open>#\<close> for an ordered one. The line is
  written after what the lines before it have written, and stays there whatever follows.
  Right after an unordered item without indentation, an item indented by two or three
  characters has the stack of that item and its own type: \<open>**\<close> or \<open>*#\<close>. After a
  line that is neither a list item nor a table row (an empty line too) the stack is
  empty, and the prefix repeats the character of the item's own type.
\<close>

theorem list_item_nesting:
  assumes pre: "block_loop U pre ([], [], []) = Inr (list_stack, table_buffer, result)"
    and ph: "\<not> sublist PH_CB line"
    and indent: "list_all is_space indent"
    and gap: "gap \<noteq> []" "list_all is_space gap"
    and content: "content = [] \<or> \<not> is_space (hd content)" "10 \<notin> set content"
    and marker: "(t = ul \<and> (marker = [45] \<or> marker = [42] \<or> marker = [43])) \<or>
                 (t = ol \<and> (\<exists>digits. digits \<noteq> [] \<and> list_all (is_digit U) digits \<and> marker = digits @ [46]))"
    and line: "line = indent @ marker @ gap @ content"
    and depth: "depth = length indent div 2 + 1"
    and S: "S = item_stack t depth list_stack"
    and out: "out = flush_table table_buffer result @
                [list_prefix S @ (if t = ul then task_render content else lit '' '' @ content)]"
  shows "block_line U line (list_stack, table_buffer, result) = Inr (S, [], out) \<and>
         block_loop U (pre @ [line]) ([], [], []) = Inr (S, [], out) \<and>
         process_block_structure U pre = Inr (flush_table table_buffer result) \<and>
         process_block_structure U (pre @ [line]) = Inr out \<and>
         (\<exists>r. process_block_structure U (pre @ line # post) = Inr r \<and> prefix out r) \<and>
         length S = depth \<and> S ! (depth - 1) = t \<and>
         (\<forall>i<depth - 1. S ! i = (if i < length list_stack then list_stack ! i else t)) \<and>
         list_prefix S = map (\<lambda>x. if x = ul then 42 else 35) S \<and>
         (\<forall>pre0 m g c.
            pre = pre0 @ [m # g @ c] \<and> (m = 45 \<or> m = 42 \<or> m = 43) \<and> g \<noteq> [] \<and> list_all is_space g \<and>
            (c = [] \<or> \<not> is_space (hd c)) \<and> 10 \<notin> set c \<and> \<not> sublist PH_CB (m # g @ c) \<and>
            length indent div 2 = 1 \<longrightarrow>
            list_stack = [ul] \<and> S = [ul, t] \<and> list_prefix S = (if t = ul then lit ''**'' else lit ''*#'')) \<and>
         (\<forall>pre0 other.
            pre = pre0 @ [other] \<and>
            (sublist PH_CB other \<or>
             \<not> TABLE_ROW_match other \<and> UL_ITEM_match other = None \<and> OL_ITEM_match U other = None) \<longrightarrow>
            list_stack = [] \<and> S = replicate depth t) \<and>
         (pre = [] \<longrightarrow> list_stack = [] \<and> S = replicate depth t)"
proof -
  have d: "1 \<le> depth" using depth by simp
  have bl: "block_line U line (list_stack, table_buffer, result) = Inr (S, [], out)"
    unfolding out
    by (rule block_line_list_item[OF ph indent gap content marker line depth S])
  note at = process_block_structure_at[OF pre bl]
  have empty: "list_stack = [] \<Longrightarrow> S = replicate depth t"
    using d unfolding S item_stack_def by (cases depth) (simp_all add: replicate_append_same)
  have c1: "\<forall>pre0 m g c.
            pre = pre0 @ [m # g @ c] \<and> (m = 45 \<or> m = 42 \<or> m = 43) \<and> g \<noteq> [] \<and> list_all is_space g \<and>
            (c = [] \<or> \<not> is_space (hd c)) \<and> 10 \<notin> set c \<and> \<not> sublist PH_CB (m # g @ c) \<and>
            length indent div 2 = 1 \<longrightarrow>
            list_stack = [ul] \<and> S = [ul, t] \<and> list_prefix S = (if t = ul then lit ''**'' else lit ''*#'')"
  proof (intro allI impI)
    fix pre0 m g c
    assume h: "pre = pre0 @ [m # g @ c] \<and> (m = 45 \<or> m = 42 \<or> m = 43) \<and> g \<noteq> [] \<and> list_all is_space g \<and>
            (c = [] \<or> \<not> is_space (hd c)) \<and> 10 \<notin> set c \<and> \<not> sublist PH_CB (m # g @ c) \<and>
            length indent div 2 = 1"
    have p: "block_loop U (pre0 @ [m # g @ c]) ([], [], []) = Inr (list_stack, table_buffer, result)"
      using pre h by simp
    have ls: "list_stack = [ul]"
      by (rule block_loop_last_item[OF p]) (use h in simp_all)
    have "depth = 2" using h depth by simp
    then have s: "S = [ul, t]" unfolding S ls by (simp add: item_stack_def)
    have "list_prefix S = (if t = ul then lit ''**'' else lit ''*#'')"
      unfolding s by (cases t) (simp_all add: list_prefix_def lit_def)
    with ls s show "list_stack = [ul] \<and> S = [ul, t] \<and>
        list_prefix S = (if t = ul then lit ''**'' else lit ''*#'')" by simp
  qed
  have c2: "\<forall>pre0 other.
            pre = pre0 @ [other] \<and>
            (sublist PH_CB other \<or>
             \<not> TABLE_ROW_match other \<and> UL_ITEM_match other = None \<and> OL_ITEM_match U other = None) \<longrightarrow>
            list_stack = [] \<and> S = replicate depth t"
  proof (intro allI impI)
    fix pre0 other
    assume h: "pre = pre0 @ [other] \<and>
            (sublist PH_CB other \<or>
             \<not> TABLE_ROW_match other \<and> UL_ITEM_match other = None \<and> OL_ITEM_match U other = None)"
    have p: "block_loop U (pre0 @ [other]) ([], [], []) = Inr (list_stack, table_buffer, result)"
      using pre h by simp
    have "list_stack = []" by (rule block_loop_last_resets[OF p]) (use h in simp)
    then show "list_stack = [] \<and> S = replicate depth t" using empty by simp
  qed
  have c3: "pre = [] \<longrightarrow> list_stack = [] \<and> S = replicate depth t"
    using pre empty by auto
  have props: "length S = depth" "S ! (depth - 1) = t"
    "\<forall>i<depth - 1. S ! i = (if i < length list_stack then list_stack ! i else t)"
    using item_stack_props[OF d, where t=t and st=list_stack] unfolding S by blast+
  show ?thesis
    apply (intro conjI)
    apply (rule bl)
    apply (rule at(1))
    apply (rule at(4))
    apply (rule at(2))
    apply (rule at(3))
    apply (rule props(1))
    apply (rule props(2))
    apply (rule props(3))
    apply (rule list_prefix_map)
    apply (rule c1)
    apply (rule c2)
    apply (rule c3)
    done
qed

lemmas block_item_defs =
  block_eval_defs update_stack_item item_stack_def list_prefix_def
  TASK_CHECKED_match_def TASK_UNCHECKED_match_def

theorem list_item_nesting_witness:
  "process_block_structure ascii_only [lit ''- bullet'', lit ''  1. numbered''] =
     Inr [lit ''* bullet'', lit ''*# numbered''] \<and>
   list_prefix (item_stack ol 2 [ul]) = lit ''*#'' \<and>
   process_block_structure ascii_only [lit ''# Title'', lit ''   - deep''] =
     Inr [lit ''h1. Title'', lit ''** deep''] \<and>
   item_stack ul 2 [] = replicate 2 ul"
proof -
  have pre1: "block_loop ascii_only [lit ''- bullet''] ([], [], []) = Inr ([ul], [], [lit ''* bullet''])"
    and pre2: "block_loop ascii_only [lit ''# Title''] ([], [], []) = Inr ([], [], [lit ''h1. Title''])"
    by (simp_all add: block_item_defs)
  have ph: "\<not> sublist PH_CB (lit ''  1. numbered'')" "\<not> sublist PH_CB (lit ''   - deep'')"
    "\<not> sublist PH_CB (45 # lit '' '' @ lit ''bullet'')"
    by (simp_all add: no_NUL_no_PH_CB lit_def)
  have indent: "list_all is_space (lit ''  '')" "list_all is_space (lit ''   '')"
    and gap: "lit '' '' \<noteq> []" "list_all is_space (lit '' '')"
    by (simp_all add: lit_def is_space_def)
  have c1: "lit ''numbered'' = [] \<or> \<not> is_space (hd (lit ''numbered''))" "10 \<notin> set (lit ''numbered'')"
    and c2: "lit ''deep'' = [] \<or> \<not> is_space (hd (lit ''deep''))" "10 \<notin> set (lit ''deep'')"
    and c3: "lit ''bullet'' = [] \<or> \<not> is_space (hd (lit ''bullet''))" "10 \<notin> set (lit ''bullet'')"
    by (simp_all add: lit_def is_space_def)
  have "lit ''1'' \<noteq> [] \<and> list_all (is_digit ascii_only) (lit ''1'') \<and> lit ''1.'' = lit ''1'' @ [46]"
    by (simp add: lit_def is_digit_def)
  then have m1: "(ol = ul \<and> (lit ''1.'' = [45] \<or> lit ''1.'' = [42] \<or> lit ''1.'' = [43])) \<or>
       (ol = ol \<and> (\<exists>digits. digits \<noteq> [] \<and> list_all (is_digit ascii_only) digits \<and> lit ''1.'' = digits @ [46]))"
    by blast
  have m2: "(ul = ul \<and> (lit ''-'' = [45] \<or> lit ''-'' = [42] \<or> lit ''-'' = [43])) \<or>
       (ul = ol \<and> (\<exists>digits. digits \<noteq> [] \<and> list_all (is_digit ascii_only) digits \<and> lit ''-'' = digits @ [46]))"
    by (simp add: lit_def)
  have l1: "lit ''  1. numbered'' = lit ''  '' @ lit ''1.'' @ lit '' '' @ lit ''numbered''"
    and l2: "lit ''   - deep'' = lit ''   '' @ lit ''-'' @ lit '' '' @ lit ''deep''"
    by (simp_all add: lit_def)
  have d1: "(2::nat) = length (lit ''  '') div 2 + 1" and d2: "(2::nat) = length (lit ''   '') div 2 + 1"
    by (simp_all add: lit_def)
  note i1 = list_item_nesting[OF pre1 ph(1) indent(1) gap c1 m1 l1 d1 refl refl, where post="[]"]
  note i2 = list_item_nesting[OF pre2 ph(2) indent(2) gap c2 m2 l2 d2 refl refl, where post="[]"]
  have a: "process_block_structure ascii_only ([lit ''- bullet''] @ [lit ''  1. numbered'']) =
      Inr (flush_table [] [lit ''* bullet''] @
        [list_prefix (item_stack ol 2 [ul]) @ (if ol = ul then task_render (lit ''numbered'') else lit '' '' @ lit ''numbered'')])"
    by (rule i1[THEN conjunct2, THEN conjunct2, THEN conjunct2, THEN conjunct1])
  have parent: "[lit ''- bullet''] = [] @ [45 # lit '' '' @ lit ''bullet''] \<and>
      ((45::nat) = 45 \<or> (45::nat) = 42 \<or> (45::nat) = 43) \<and> lit '' '' \<noteq> [] \<and> list_all is_space (lit '' '') \<and>
      (lit ''bullet'' = [] \<or> \<not> is_space (hd (lit ''bullet''))) \<and> 10 \<notin> set (lit ''bullet'') \<and>
      \<not> sublist PH_CB (45 # lit '' '' @ lit ''bullet'') \<and> length (lit ''  '') div 2 = 1"
    using ph(3) gap c3 by (simp add: lit_def)
  have b: "list_prefix (item_stack ol 2 [ul]) = lit ''*#''"
    using i1[THEN conjunct2, THEN conjunct2, THEN conjunct2, THEN conjunct2, THEN conjunct2,
        THEN conjunct2, THEN conjunct2, THEN conjunct2, THEN conjunct2, THEN conjunct1,
        THEN spec, THEN spec, THEN spec, THEN spec, THEN mp, OF parent,
        THEN conjunct2, THEN conjunct2]
    by simp
  have heading: "[lit ''# Title''] = [] @ [lit ''# Title''] \<and>
      (sublist PH_CB (lit ''# Title'') \<or>
       \<not> TABLE_ROW_match (lit ''# Title'') \<and> UL_ITEM_match (lit ''# Title'') = None \<and>
       OL_ITEM_match ascii_only (lit ''# Title'') = None)"
    by (simp add: block_eval_defs)
  have c: "process_block_structure ascii_only ([lit ''# Title''] @ [lit ''   - deep'']) =
      Inr (flush_table [] [lit ''h1. Title''] @
        [list_prefix (item_stack ul 2 []) @ (if ul = ul then task_render (lit ''deep'') else lit '' '' @ lit ''deep'')])"
    by (rule i2[THEN conjunct2, THEN conjunct2, THEN conjunct2, THEN conjunct1])
  have r: "item_stack ul 2 [] = replicate 2 ul"
    using i2[THEN conjunct2, THEN conjunct2, THEN conjunct2, THEN conjunct2, THEN conjunct2,
        THEN conjunct2, THEN conjunct2, THEN conjunct2, THEN conjunct2, THEN conjunct2, THEN conjunct1,
        THEN spec, THEN spec, THEN mp, OF heading, THEN conjunct2] .
  have t: "task_render (lit ''deep'') = lit '' deep''"
    by (simp add: task_render_def TASK_CHECKED_match_def TASK_UNCHECKED_match_def lit_def)
  show ?thesis
    using a b c t r by (simp add: flush_table_def list_prefix_def item_stack_def lit_def)
qed

text \<open>
  Claim C6 as stated fails: with an empty line between the unordered item and the
  ordered item indented under it, the prefix of the ordered item is \<open>##\<close>.
\<close>

theorem list_item_nesting_counterexample:
  "process_block_structure ascii_only [lit ''- bullet'', [], lit ''  1. numbered''] =
     Inr [lit ''* bullet'', [], lit ''## numbered'']"
  by (simp add: block_item_defs)

text \<open>
  Claim C7. An unordered item whose text starts with \<open>[ ]\<close> and whitespace is written
  as the prefix, \<open>( )\<close> and the text after that whitespace; with \<open>[x]\<close> or \<open>[X]\<close> it
  is written with \<open>(/)\<close>. An ordered item is written as the prefix and its text as it
  is, also when the text starts with such a marker. This is the line that
  \<open>_process_block_structure\<close> writes for the item, after the lines that it writes for
  what is before the item, and before the lines that it writes for what follows.
\<close>

theorem task_markers_rendered:
  assumes pre: "block_loop U pre ([], [], []) = Inr (list_stack, table_buffer, result)"
    and before: "before = flush_table table_buffer result"
    and indent: "list_all is_space indent"
    and gap: "gap \<noteq> []" "list_all is_space gap"
    and gap2: "gap2 \<noteq> []" "list_all is_space gap2" "10 \<notin> set gap2"
    and rest: "rest = [] \<or> \<not> is_space (hd rest)" "10 \<notin> set rest"
    and m: "m = 45 \<or> m = 42 \<or> m = 43"
    and x: "x = 120 \<or> x = 88"
    and digits: "digits \<noteq> []" "list_all (is_digit U) digits"
    and content: "content = [] \<or> \<not> is_space (hd content)" "10 \<notin> set content"
    and Su: "Su = item_stack ul (length indent div 2 + 1) list_stack"
    and So: "So = item_stack ol (length indent div 2 + 1) list_stack"
    and l1: "unchecked = indent @ m # gap @ lit ''[ ]'' @ gap2 @ rest"
    and l2: "checked = indent @ m # gap @ 91 # x # 93 # gap2 @ rest"
    and l3: "ordered = indent @ digits @ 46 # gap @ content"
  shows "process_block_structure U pre = Inr before \<and>
         (\<not> sublist PH_CB unchecked \<longrightarrow>
            block_line U unchecked (list_stack, table_buffer, result) =
              Inr (Su, [], before @ [list_prefix Su @ lit '' ( ) '' @ rest]) \<and>
            process_block_structure U (pre @ [unchecked]) =
              Inr (before @ [list_prefix Su @ lit '' ( ) '' @ rest]) \<and>
            (\<exists>r. process_block_structure U (pre @ unchecked # post) = Inr r \<and>
                 prefix (before @ [list_prefix Su @ lit '' ( ) '' @ rest]) r)) \<and>
         (\<not> sublist PH_CB checked \<longrightarrow>
            block_line U checked (list_stack, table_buffer, result) =
              Inr (Su, [], before @ [list_prefix Su @ lit '' (/) '' @ rest]) \<and>
            process_block_structure U (pre @ [checked]) =
              Inr (before @ [list_prefix Su @ lit '' (/) '' @ rest]) \<and>
            (\<exists>r. process_block_structure U (pre @ checked # post) = Inr r \<and>
                 prefix (before @ [list_prefix Su @ lit '' (/) '' @ rest]) r)) \<and>
         (\<not> sublist PH_CB ordered \<longrightarrow>
            block_line U ordered (list_stack, table_buffer, result) =
              Inr (So, [], before @ [list_prefix So @ lit '' '' @ content]) \<and>
            process_block_structure U (pre @ [ordered]) =
              Inr (before @ [list_prefix So @ lit '' '' @ content]) \<and>
            (\<exists>r. process_block_structure U (pre @ ordered # post) = Inr r \<and>
                 prefix (before @ [list_prefix So @ lit '' '' @ content]) r))"
proof -
  have mk: "(ul = ul \<and> ([m] = [45] \<or> [m] = [42] \<or> [m] = [43])) \<or>
       (ul = ol \<and> (\<exists>ds. ds \<noteq> [] \<and> list_all (is_digit U) ds \<and> [m] = ds @ [46]))"
    using m by simp
  have mo: "(ol = ul \<and> (digits @ [46] = [45] \<or> digits @ [46] = [42] \<or> digits @ [46] = [43])) \<or>
       (ol = ol \<and> (\<exists>ds. ds \<noteq> [] \<and> list_all (is_digit U) ds \<and> digits @ [46] = ds @ [46]))"
    using digits by blast
  have c1: "lit ''[ ]'' @ gap2 @ rest = [] \<or> \<not> is_space (hd (lit ''[ ]'' @ gap2 @ rest))"
      "10 \<notin> set (lit ''[ ]'' @ gap2 @ rest)"
    using gap2 rest by (simp_all add: lit_def is_space_def)
  have c2: "91 # x # 93 # gap2 @ rest = [] \<or> \<not> is_space (hd (91 # x # 93 # gap2 @ rest))"
      "10 \<notin> set (91 # x # 93 # gap2 @ rest)"
    using gap2 rest x by (auto simp add: is_space_def)
  have p0: "process_block_structure U pre = Inr before"
    by (simp add: process_block_structure_def pre before)
  have a: "\<not> sublist PH_CB unchecked \<longrightarrow>
            block_line U unchecked (list_stack, table_buffer, result) =
              Inr (Su, [], before @ [list_prefix Su @ lit '' ( ) '' @ rest]) \<and>
            process_block_structure U (pre @ [unchecked]) =
              Inr (before @ [list_prefix Su @ lit '' ( ) '' @ rest]) \<and>
            (\<exists>r. process_block_structure U (pre @ unchecked # post) = Inr r \<and>
                 prefix (before @ [list_prefix Su @ lit '' ( ) '' @ rest]) r)"
  proof
    assume ph: "\<not> sublist PH_CB unchecked"
    have l: "unchecked = indent @ [m] @ gap @ (lit ''[ ]'' @ gap2 @ rest)"
      by (simp add: l1)
    have bl: "block_line U unchecked (list_stack, table_buffer, result) =
           Inr (Su, [], before @ [list_prefix Su @ lit '' ( ) '' @ rest])"
      using block_line_list_item[OF ph indent gap c1 mk l refl Su, of table_buffer result]
        TASK_UNCHECKED_match_marker[OF gap2(1,2) rest(1)] by (simp add: before)
    show "block_line U unchecked (list_stack, table_buffer, result) =
              Inr (Su, [], before @ [list_prefix Su @ lit '' ( ) '' @ rest]) \<and>
            process_block_structure U (pre @ [unchecked]) =
              Inr (before @ [list_prefix Su @ lit '' ( ) '' @ rest]) \<and>
            (\<exists>r. process_block_structure U (pre @ unchecked # post) = Inr r \<and>
                 prefix (before @ [list_prefix Su @ lit '' ( ) '' @ rest]) r)"
      using bl process_block_structure_at(2,3)[OF pre bl] by (intro conjI)
  qed
  have b: "\<not> sublist PH_CB checked \<longrightarrow>
            block_line U checked (list_stack, table_buffer, result) =
              Inr (Su, [], before @ [list_prefix Su @ lit '' (/) '' @ rest]) \<and>
            process_block_structure U (pre @ [checked]) =
              Inr (before @ [list_prefix Su @ lit '' (/) '' @ rest]) \<and>
            (\<exists>r. process_block_structure U (pre @ checked # post) = Inr r \<and>
                 prefix (before @ [list_prefix Su @ lit '' (/) '' @ rest]) r)"
  proof
    assume ph: "\<not> sublist PH_CB checked"
    have l: "checked = indent @ [m] @ gap @ (91 # x # 93 # gap2 @ rest)"
      by (simp add: l2)
    have bl: "block_line U checked (list_stack, table_buffer, result) =
           Inr (Su, [], before @ [list_prefix Su @ lit '' (/) '' @ rest])"
      using block_line_list_item[OF ph indent gap c2 mk l refl Su, of table_buffer result]
        TASK_CHECKED_match_marker[OF x gap2(1,2) rest(1)] by (simp add: before)
    show "block_line U checked (list_stack, table_buffer, result) =
              Inr (Su, [], before @ [list_prefix Su @ lit '' (/) '' @ rest]) \<and>
            process_block_structure U (pre @ [checked]) =
              Inr (before @ [list_prefix Su @ lit '' (/) '' @ rest]) \<and>
            (\<exists>r. process_block_structure U (pre @ checked # post) = Inr r \<and>
                 prefix (before @ [list_prefix Su @ lit '' (/) '' @ rest]) r)"
      using bl process_block_structure_at(2,3)[OF pre bl] by (intro conjI)
  qed
  have c: "\<not> sublist PH_CB ordered \<longrightarrow>
            block_line U ordered (list_stack, table_buffer, result) =
              Inr (So, [], before @ [list_prefix So @ lit '' '' @ content]) \<and>
            process_block_structure U (pre @ [ordered]) =
              Inr (before @ [list_prefix So @ lit '' '' @ content]) \<and>
            (\<exists>r. process_block_structure U (pre @ ordered # post) = Inr r \<and>
                 prefix (before @ [list_prefix So @ lit '' '' @ content]) r)"
  proof
    assume ph: "\<not> sublist PH_CB ordered"
    have l: "ordered = indent @ (digits @ [46]) @ gap @ content"
      by (simp add: l3)
    have bl: "block_line U ordered (list_stack, table_buffer, result) =
           Inr (So, [], before @ [list_prefix So @ lit '' '' @ content])"
      using block_line_list_item[OF ph indent gap content mo l refl So, of table_buffer result]
      by (simp add: before)
    show "block_line U ordered (list_stack, table_buffer, result) =
              Inr (So, [], before @ [list_prefix So @ lit '' '' @ content]) \<and>
            process_block_structure U (pre @ [ordered]) =
              Inr (before @ [list_prefix So @ lit '' '' @ content]) \<and>
            (\<exists>r. process_block_structure U (pre @ ordered # post) = Inr r \<and>
                 prefix (before @ [list_prefix So @ lit '' '' @ content]) r)"
      using bl process_block_structure_at(2,3)[OF pre bl] by (intro conjI)
  qed
  show ?thesis
    apply (intro conjI)
    apply (rule p0)
    apply (rule a)
    apply (rule b)
    apply (rule c)
    done
qed

theorem task_markers_rendered_witness:
  "process_block_structure ascii_only [lit ''# Tasks'', lit ''- [ ] todo''] =
     Inr [lit ''h1. Tasks'', lit ''* ( ) todo''] \<and>
   process_block_structure ascii_only [lit ''# Tasks'', lit ''- [X] done''] =
     Inr [lit ''h1. Tasks'', lit ''* (/) done''] \<and>
   process_block_structure ascii_only [lit ''# Tasks'', lit ''1. [x] kept''] =
     Inr [lit ''h1. Tasks'', lit ''# [x] kept'']"
proof -
  have pre: "block_loop ascii_only [lit ''# Tasks''] ([], [], []) = Inr ([], [], [lit ''h1. Tasks''])"
    by (simp add: block_item_defs)
  have before: "[lit ''h1. Tasks''] = flush_table [] [lit ''h1. Tasks'']"
    by (simp add: flush_table_def)
  have indent: "list_all is_space []" and gap: "lit '' '' \<noteq> []" "list_all is_space (lit '' '')"
    "10 \<notin> set (lit '' '')"
    by (simp_all add: lit_def is_space_def)
  have rest: "lit ''done'' = [] \<or> \<not> is_space (hd (lit ''done''))" "10 \<notin> set (lit ''done'')"
    and content: "lit ''[x] kept'' = [] \<or> \<not> is_space (hd (lit ''[x] kept''))" "10 \<notin> set (lit ''[x] kept'')"
    by (simp_all add: lit_def is_space_def)
  have rest': "lit ''todo'' = [] \<or> \<not> is_space (hd (lit ''todo''))" "10 \<notin> set (lit ''todo'')"
    by (simp_all add: lit_def is_space_def)
  have m: "(45::nat) = 45 \<or> (45::nat) = 42 \<or> (45::nat) = 43" and x: "(88::nat) = 120 \<or> (88::nat) = 88" by simp_all
  have digits: "lit ''1'' \<noteq> []" "list_all (is_digit ascii_only) (lit ''1'')"
    by (simp_all add: lit_def is_digit_def)
  have Su: "[ul] = item_stack ul (length ([]::pystr) div 2 + 1) []"
    and So: "[ol] = item_stack ol (length ([]::pystr) div 2 + 1) []"
    by (simp_all add: item_stack_def)
  have l: "lit ''- [ ] todo'' = [] @ 45 # lit '' '' @ lit ''[ ]'' @ lit '' '' @ lit ''todo''"
    "lit ''- [X] done'' = [] @ 45 # lit '' '' @ 91 # 88 # 93 # lit '' '' @ lit ''done''"
    "lit ''1. [x] kept'' = [] @ lit ''1'' @ 46 # lit '' '' @ lit ''[x] kept''"
    by (simp_all add: lit_def)
  have ph: "\<not> sublist PH_CB (lit ''- [ ] todo'')" "\<not> sublist PH_CB (lit ''- [X] done'')"
    "\<not> sublist PH_CB (lit ''1. [x] kept'')"
    by (simp_all add: no_NUL_no_PH_CB lit_def)
  note i1 = task_markers_rendered[OF pre before indent gap(1,2) gap rest' m x digits content Su So
      l(1) refl l(3), where post="[]"]
  note i2 = task_markers_rendered[OF pre before indent gap(1,2) gap rest m x digits content Su So
      refl l(2) l(3), where post="[]"]
  have a: "process_block_structure ascii_only ([lit ''# Tasks''] @ [lit ''- [ ] todo'']) =
      Inr ([lit ''h1. Tasks''] @ [list_prefix [ul] @ lit '' ( ) '' @ lit ''todo''])"
    by (rule i1[THEN conjunct2, THEN conjunct1, THEN mp, OF ph(1), THEN conjunct2, THEN conjunct1])
  have b: "process_block_structure ascii_only ([lit ''# Tasks''] @ [lit ''- [X] done'']) =
      Inr ([lit ''h1. Tasks''] @ [list_prefix [ul] @ lit '' (/) '' @ lit ''done''])"
    by (rule i2[THEN conjunct2, THEN conjunct2, THEN conjunct1, THEN mp, OF ph(2), THEN conjunct2, THEN conjunct1])
  have c: "process_block_structure ascii_only ([lit ''# Tasks''] @ [lit ''1. [x] kept'']) =
      Inr ([lit ''h1. Tasks''] @ [list_prefix [ol] @ lit '' '' @ lit ''[x] kept''])"
    by (rule i2[THEN conjunct2, THEN conjunct2, THEN conjunct2, THEN mp, OF ph(3), THEN conjunct2, THEN conjunct1])
  show ?thesis
    using a b c by (simp add: list_prefix_def lit_def)
qed

section \<open>The blocks of a document\<close>

lemma collect_body_takeWhile:
  "collect_body fc ls =
     (takeWhile (\<lambda>x. \<not> fence_close_match fc x) ls,
      drop 1 (dropWhile (\<lambda>x. \<not> fence_close_match fc x) ls))"
  by (induction ls) auto

lemma str_nat_value: "foldl (\<lambda>acc d. 10 * acc + (d - 48)) 0 (str_nat n) = n"
proof (induction n rule: str_nat.induct)
  case (1 n)
  show ?case
  proof (cases "n < 10")
    case True
    have "str_nat n = [48 + n]" using True by (subst str_nat.simps) simp
    then show ?thesis by simp
  next
    case False
    have s: "str_nat n = str_nat (n div 10) @ [48 + n mod 10]"
      using False by (subst str_nat.simps) simp
    have "foldl (\<lambda>acc d. 10 * acc + (d - 48)) 0 (str_nat (n div 10)) = n div 10"
      using 1[OF False] .
    then have "foldl (\<lambda>acc d. 10 * acc + (d - 48)) 0 (str_nat n) = 10 * (n div 10) + n mod 10"
      unfolding s by simp
    then show ?thesis by simp
  qed
qed

lemma str_nat_inj: "str_nat a = str_nat b \<Longrightarrow> a = b"
  by (metis str_nat_value)

lemma ph_inj: "ph tag a = ph tag b \<Longrightarrow> a = b"
  by (auto simp: ph_def dest: str_nat_inj)

lemma dict_set_fresh: "k \<notin> fst ` set m \<Longrightarrow> dict_set m k v = m @ [(k, v)]"
  by (induction m k v rule: dict_set.induct) auto

lemma placeholder_map_keys:
  "(key, v) \<in> set (placeholder_map k xs) \<Longrightarrow> \<exists>j\<ge>k. key = ph PH_CB j"
proof (induction k xs rule: placeholder_map.induct)
  case (1 k)
  then show ?case by simp
next
  case (2 k l xs)
  then show ?case by simp
next
  case (3 k lang body xs)
  then show ?case by (auto intro: Suc_leD)
qed

lemma placeholder_map_distinct: "distinct (map fst (placeholder_map k xs))"
proof (induction k xs rule: placeholder_map.induct)
  case (1 k)
  then show ?case by simp
next
  case (2 k l xs)
  then show ?case by simp
next
  case (3 k lang body xs)
  have "ph PH_CB k \<notin> fst ` set (placeholder_map (k + 1) xs)"
  proof
    assume "ph PH_CB k \<in> fst ` set (placeholder_map (k + 1) xs)"
    then obtain v where "(ph PH_CB k, v) \<in> set (placeholder_map (k + 1) xs)" by auto
    from placeholder_map_keys[OF this] obtain j where "j \<ge> k + 1" "ph PH_CB k = ph PH_CB j" by blast
    then show False using ph_inj[of PH_CB k j] by simp
  qed
  with 3 show ?case by simp
qed

lemma extract_loop_segments:
  "fst ` set code_map \<subseteq> ph PH_CB ` {..<counter} \<Longrightarrow>
   extract_loop U ls result code_map counter =
     Inr (result @ placeholder_lines counter (segments U ls),
          code_map @ placeholder_map counter (segments U ls))"
proof (induction U ls result code_map counter rule: extract_loop.induct)
  case (1 U result code_map counter)
  then show ?case by (simp add: extract_loop.simps segments.simps)
next
  case (2 U l ls result code_map counter)
  show ?case
  proof (cases "FENCE_START_match U l")
    case None
    then show ?thesis using "2.IH"(1)[OF None "2.prems"]
      by (simp add: extract_loop.simps segments.simps)
  next
    case (Some p)
    obtain g1 g2 where p: "p = (g1, g2)" by (cases p)
    from FENCE_START_match_group1[of U l g1 g2] Some p
    obtain fc g where g1: "g1 = fc # g" by auto
    let ?body = "takeWhile (\<lambda>x. \<not> fence_close_match fc x) ls"
    let ?rest = "drop 1 (dropWhile (\<lambda>x. \<not> fence_close_match fc x) ls)"
    define raw where "raw =
        (if strip g2 \<noteq> [] then lit ''{code:language='' @ strip g2 @ lit ''}'' else lit ''{code}'') @
        [10] @ join [10] (fst (collect_body fc ls)) @ lit ''\<newline>{code}''"
    have blk: "raw = fenced_block (strip g2) ?body"
      by (simp add: raw_def fenced_block_def lit_def collect_body_takeWhile)
    have rest: "snd (collect_body fc ls) = ?rest"
      by (simp add: collect_body_takeWhile)
    have fresh: "ph PH_CB counter \<notin> fst ` set code_map"
    proof
      assume "ph PH_CB counter \<in> fst ` set code_map"
      with "2.prems" obtain j where "j < counter" "ph PH_CB counter = ph PH_CB j" by blast
      then show False using ph_inj[of PH_CB counter j] by simp
    qed
    have inv: "fst ` set (dict_set code_map (ph PH_CB counter) raw) \<subseteq> ph PH_CB ` {..<counter + 1}"
      using "2.prems" unfolding dict_set_fresh[OF fresh] by (auto simp: less_Suc_eq)
    have ih: "extract_loop U (snd (collect_body fc ls)) (result @ [ph PH_CB counter])
             (dict_set code_map (ph PH_CB counter) raw) (counter + 1) =
          Inr ((result @ [ph PH_CB counter]) @
                 placeholder_lines (counter + 1) (segments U (snd (collect_body fc ls))),
               dict_set code_map (ph PH_CB counter) raw @
                 placeholder_map (counter + 1) (segments U (snd (collect_body fc ls))))"
      unfolding raw_def
      by (rule "2.IH"(2)[OF Some p[symmetric] g1 refl refl refl refl refl refl inv[unfolded raw_def]])
    have step: "extract_loop U (l # ls) result code_map counter =
        extract_loop U (snd (collect_body fc ls)) (result @ [ph PH_CB counter])
             (dict_set code_map (ph PH_CB counter) raw) (counter + 1)"
      unfolding raw_def using Some p g1 by (simp add: extract_loop.simps Let_def)
    have seg: "segments U (l # ls) = Fenced (strip g2) ?body # segments U ?rest"
      using Some p g1 by (simp add: segments.simps)
    show ?thesis
      unfolding step ih seg by (simp add: rest dict_set_fresh[OF fresh] blk)
  qed
qed

lemma extract_code_blocks_segments:
  "extract_code_blocks U lines =
     Inr (placeholder_lines 0 (segments U lines), placeholder_map 0 (segments U lines))"
  using extract_loop_segments[of "[]" 0 U lines "[]"] by (simp add: extract_code_blocks_def)

lemma segments_plain:
  "FENCE_START_match U l = None \<Longrightarrow> segments U (l # ls) = Plain l # segments U ls"
  by (simp add: segments.simps)

lemma takeWhile_body:
  "\<forall>l\<in>set body. P l \<Longrightarrow> \<not> P closer \<Longrightarrow> takeWhile P (body @ closer # rest) = body"
  by (induction body) auto

lemma dropWhile_body:
  "\<forall>l\<in>set body. P l \<Longrightarrow> \<not> P closer \<Longrightarrow> dropWhile P (body @ closer # rest) = closer # rest"
  by (induction body) auto

lemma segments_closed:
  assumes "FENCE_START_match U opener = Some (fc # g, lang)"
    and "\<forall>l\<in>set body. \<not> fence_close_match fc l" "fence_close_match fc closer"
  shows "segments U (opener # body @ closer # rest) = Fenced (strip lang) body # segments U rest"
  using assms(1) takeWhile_body[of body "\<lambda>x. \<not> fence_close_match fc x" closer rest]
    dropWhile_body[of body "\<lambda>x. \<not> fence_close_match fc x" closer rest] assms(2,3)
  by (simp add: segments.simps)

lemma segments_open:
  assumes "FENCE_START_match U opener = Some (fc # g, lang)"
    and "\<forall>l\<in>set body. \<not> fence_close_match fc l"
  shows "segments U (opener # body) = [Fenced (strip lang) body]"
proof -
  have "takeWhile (\<lambda>x. \<not> fence_close_match fc x) body = body"
    using assms(2) by (simp add: takeWhile_eq_all_conv)
  moreover have "drop (Suc 0) (dropWhile (\<lambda>x. \<not> fence_close_match fc x) body) = []"
    using assms(2) by (induction body) auto
  ultimately show ?thesis using assms(1) by (simp add: segments.simps)
qed

lemma FENCE_START_match_shape:
  assumes "FENCE_START_match U l = Some (g1, g2)" "10 \<notin> set l"
  shows "\<exists>fc k. (fc = 96 \<or> fc = 126) \<and> 3 \<le> k \<and> g1 = replicate k fc \<and>
           list_all (\<lambda>c. is_word U c \<or> c = 43 \<or> c = 45) g2 \<and> l = replicate k fc @ g2"
proof -
  from assms(1) obtain c cs where l: "l = c # cs" and c: "c = 96 \<or> c = 126"
    by (cases l) (auto simp: FENCE_START_match_def split: if_splits)
  let ?w = "\<lambda>x. is_word U x \<or> x = 43 \<or> x = 45"
  let ?rest = "dropWhile (\<lambda>x. x = c) l"
  from assms(1) have g1: "g1 = takeWhile (\<lambda>x. x = c) l" and g2: "g2 = takeWhile ?w ?rest"
    and len: "3 \<le> length g1" and d: "at_dollar (dropWhile ?w ?rest)"
    using c unfolding l FENCE_START_match_def by (auto simp: Let_def split: if_splits)
  have "set (dropWhile ?w ?rest) \<subseteq> set l"
    by (meson set_dropWhileD subsetI)
  with d assms(2) have e: "dropWhile ?w ?rest = []" by (auto simp: at_dollar_def)
  have "takeWhile ?w ?rest = ?rest" using e by (simp add: takeWhile_eq_all_conv)
  then have r: "?rest = g2" unfolding g2 by (rule sym)
  have all: "list_all ?w g2" unfolding g2 by (auto simp: list_all_iff dest: set_takeWhileD)
  have rep: "g1 = replicate (length g1) c"
    unfolding g1 by (rule replicate_length_same[symmetric]) (auto dest: set_takeWhileD)
  have "l = g1 @ ?rest" unfolding g1 by simp
  then have "l = replicate (length g1) c @ g2" using r rep by simp
  with c len rep all show ?thesis by blast
qed

text \<open>
  Claim C4. A line of three or more backticks or tildes, followed by an optional language
  word, opens a block. The lines after it are taken as they are, up to the first line of
  three or more of the same fence character followed only by whitespace; that line is
  consumed and is not part of the body. Without such a line the body runs to the end of
  the input. Every block of the document becomes one line that holds a placeholder of its
  own, the blocks numbered in their order, and the placeholder stands for
  \<open>{code:language=<lang>}\<close> (\<open>{code}\<close> without a language), the body, and \<open>{code}\<close>;
  the lines outside the blocks are kept.
\<close>

theorem fenced_block_extracted:
  assumes fc: "fence_char = 96 \<or> fence_char = 126" and n: "3 \<le> n"
    and lang: "list_all (\<lambda>c. is_word U c \<or> c = 43 \<or> c = 45) lang"
    and body: "\<forall>l\<in>set body. \<not> fence_close_match fence_char l"
  shows "extract_code_blocks U lines =
           Inr (placeholder_lines 0 (segments U lines), placeholder_map 0 (segments U lines)) \<and>
         distinct (map fst (placeholder_map 0 (segments U lines))) \<and>
         (FENCE_START_match U l = None \<longrightarrow> segments U (l # ls) = Plain l # segments U ls) \<and>
         (fence_close_match fence_char closer \<longrightarrow>
            segments U ((replicate n fence_char @ lang) # body @ closer # rest) =
              Fenced (strip lang) body # segments U rest) \<and>
         segments U ((replicate n fence_char @ lang) # body) = [Fenced (strip lang) body] \<and>
         (fence_close_match fence_char l \<longleftrightarrow>
            (\<exists>k ws. l = replicate k fence_char @ ws \<and> 3 \<le> k \<and> list_all is_space ws)) \<and>
         ((\<forall>c\<in>set lang. \<not> is_space c) \<longrightarrow> strip lang = lang) \<and>
         (\<forall>g1 g2. FENCE_START_match U l = Some (g1, g2) \<and> 10 \<notin> set l \<longrightarrow>
            (\<exists>c k. (c = 96 \<or> c = 126) \<and> 3 \<le> k \<and> g1 = replicate k c \<and>
                   list_all (\<lambda>c. is_word U c \<or> c = 43 \<or> c = 45) g2 \<and> l = replicate k c @ g2)) \<and>
         fenced_block lang body =
           (if lang = [] then lit ''{code}'' else lit ''{code:language='' @ lang @ lit ''}'') @
           [10] @ join [10] body @ [10] @ lit ''{code}''"
proof -
  obtain m where m: "n = Suc m" using n by (cases n) auto
  have start: "FENCE_START_match U (replicate n fence_char @ lang) =
      Some (fence_char # replicate m fence_char, lang)"
    using FENCE_START_match_opener[OF fc n lang] by (simp add: m)
  have nsp: "\<not> is_space fence_char" using fc by (auto simp: is_space_def)
  have c3: "FENCE_START_match U l = None \<longrightarrow> segments U (l # ls) = Plain l # segments U ls"
    by (simp add: segments_plain)
  have c4: "fence_close_match fence_char closer \<longrightarrow>
            segments U ((replicate n fence_char @ lang) # body @ closer # rest) =
              Fenced (strip lang) body # segments U rest"
    using segments_closed[OF start body] by blast
  have c8: "\<forall>g1 g2. FENCE_START_match U l = Some (g1, g2) \<and> 10 \<notin> set l \<longrightarrow>
            (\<exists>c k. (c = 96 \<or> c = 126) \<and> 3 \<le> k \<and> g1 = replicate k c \<and>
                   list_all (\<lambda>c. is_word U c \<or> c = 43 \<or> c = 45) g2 \<and> l = replicate k c @ g2)"
    using FENCE_START_match_shape[of U l] by blast
  have c7: "(\<forall>c\<in>set lang. \<not> is_space c) \<longrightarrow> strip lang = lang"
    using strip_no_space[of lang] by blast
  show ?thesis
    apply (intro conjI)
    apply (rule extract_code_blocks_segments)
    apply (rule placeholder_map_distinct)
    apply (rule c3)
    apply (rule c4)
    apply (rule segments_open[OF start body])
    apply (rule fence_close_match_iff[OF nsp])
    apply (rule c7)
    apply (rule c8)
    apply (simp add: fenced_block_def)
    done
qed

theorem fenced_block_extracted_witness:
  "extract_code_blocks ascii_only
     [lit ''```py'', lit ''x = 1'', lit ''```  '', lit ''after'', lit ''~~~'', lit ''y'', lit ''```''] =
     Inr ([ph PH_CB 0, lit ''after'', ph PH_CB 1],
          [(ph PH_CB 0, lit ''{code:language=py}\<newline>x = 1\<newline>{code}''),
           (ph PH_CB 1, lit ''{code}\<newline>y\<newline>```\<newline>{code}'')]) \<and>
   ph PH_CB 0 \<noteq> ph PH_CB 1"
proof -
  let ?doc = "[lit ''```py'', lit ''x = 1'', lit ''```  '', lit ''after'', lit ''~~~'', lit ''y'', lit ''```'']"
  have h1: "(96::nat) = 96 \<or> (96::nat) = 126" and h1': "(126::nat) = 96 \<or> (126::nat) = 126"
    and h2: "(3::nat) \<le> 3" by simp_all
  have h3: "list_all (\<lambda>c. is_word ascii_only c \<or> c = 43 \<or> c = 45) (lit ''py'')"
    and h3': "list_all (\<lambda>c. is_word ascii_only c \<or> c = 43 \<or> c = 45) []"
    by (simp_all add: lit_def is_word_def)
  have h4: "\<forall>l\<in>set [lit ''x = 1'']. \<not> fence_close_match 96 l"
    and h4': "\<forall>l\<in>set [lit ''y'', lit ''```'']. \<not> fence_close_match 126 l"
    by (simp_all add: lit_def fence_close_match_def)
  have cl: "fence_close_match 96 (lit ''```  '')"
    by (simp add: lit_def fence_close_match_def is_space_def)
  have pl: "FENCE_START_match ascii_only (lit ''after'') = None"
    by (simp add: FENCE_START_match_def lit_def)
  note i1 = fenced_block_extracted[OF h1 h2 h3 h4, where lines="?doc" and closer="lit ''```  ''"
      and rest="[lit ''after'', lit ''~~~'', lit ''y'', lit ''```'']" and l="lit ''after''"
      and ls="[lit ''~~~'', lit ''y'', lit ''```'']"]
  note i2 = fenced_block_extracted[OF h1' h2 h3' h4', where lines="?doc"]
  have o1: "lit ''```py'' = replicate 3 96 @ lit ''py''" and o2: "lit ''~~~'' = replicate 3 126 @ []"
    by (simp_all add: lit_def numeral_3_eq_3)
  have s: "strip (lit ''py'') = lit ''py''" "strip [] = []"
    by (simp_all add: strip_def lstrip_def rstrip_def lit_def is_space_def)
  have s1: "segments ascii_only ?doc =
      Fenced (lit ''py'') [lit ''x = 1''] # segments ascii_only [lit ''after'', lit ''~~~'', lit ''y'', lit ''```'']"
    using i1[THEN conjunct2, THEN conjunct2, THEN conjunct2, THEN conjunct1, THEN mp, OF cl]
    unfolding o1 s by simp
  have s2: "segments ascii_only [lit ''after'', lit ''~~~'', lit ''y'', lit ''```''] =
      Plain (lit ''after'') # segments ascii_only [lit ''~~~'', lit ''y'', lit ''```'']"
    by (rule i1[THEN conjunct2, THEN conjunct2, THEN conjunct1, THEN mp, OF pl])
  have s3: "segments ascii_only [lit ''~~~'', lit ''y'', lit ''```''] = [Fenced [] [lit ''y'', lit ''```'']]"
    using i2[THEN conjunct2, THEN conjunct2, THEN conjunct2, THEN conjunct2, THEN conjunct1]
    unfolding o2 s by simp
  have seg: "segments ascii_only ?doc =
      [Fenced (lit ''py'') [lit ''x = 1''], Plain (lit ''after''), Fenced [] [lit ''y'', lit ''```'']]"
    unfolding s1 s2 s3 by simp
  have e: "extract_code_blocks ascii_only ?doc =
      Inr (placeholder_lines 0 (segments ascii_only ?doc), placeholder_map 0 (segments ascii_only ?doc))"
    by (rule i1[THEN conjunct1])
  have d: "distinct (map fst (placeholder_map 0 (segments ascii_only ?doc)))"
    by (rule i1[THEN conjunct2, THEN conjunct1])
  have "ph PH_CB 0 \<noteq> ph PH_CB 1" using d unfolding seg by simp
  moreover have "extract_code_blocks ascii_only ?doc =
     Inr ([ph PH_CB 0, lit ''after'', ph PH_CB 1],
          [(ph PH_CB 0, lit ''{code:language=py}\<newline>x = 1\<newline>{code}''),
           (ph PH_CB 1, lit ''{code}\<newline>y\<newline>```\<newline>{code}'')])"
    unfolding e seg by (simp add: fenced_block_def lit_def)
  ultimately show ?thesis by simp
qed

end
